theory Spec2Isabelle
  imports Main
begin

section \<open>Strings\<close>

text \<open>
  Python strings are modelled as HOL strings. The model covers ASCII text: a character
  stands for the code point of the same number, and the character classes below are
  Python's restricted to code points under 128.
\<close>

definition whitespace :: string where
  "whitespace = [CHR 0x09, CHR 0x0A, CHR 0x0B, CHR 0x0C, CHR 0x0D,
                 CHR 0x1C, CHR 0x1D, CHR 0x1E, CHR 0x1F, CHR 0x20]"

definition isspace :: "char \<Rightarrow> bool" where
  "isspace c = (c \<in> set whitespace)"

definition ascii_lowercase :: string where
  "ascii_lowercase = ''abcdefghijklmnopqrstuvwxyz''"

definition ascii_uppercase :: string where
  "ascii_uppercase = ''ABCDEFGHIJKLMNOPQRSTUVWXYZ''"

definition lower_char :: "char \<Rightarrow> char" where
  "lower_char c = (case map_of (zip ascii_uppercase ascii_lowercase) c of
                     Some d \<Rightarrow> d | None \<Rightarrow> c)"

definition lower :: "string \<Rightarrow> string" where
  "lower s = map lower_char s"

definition lstrip :: "(char \<Rightarrow> bool) \<Rightarrow> string \<Rightarrow> string" where
  "lstrip p s = dropWhile p s"

definition rstrip :: "(char \<Rightarrow> bool) \<Rightarrow> string \<Rightarrow> string" where
  "rstrip p s = rev (dropWhile p (rev s))"

definition strip :: "(char \<Rightarrow> bool) \<Rightarrow> string \<Rightarrow> string" where
  "strip p s = rstrip p (lstrip p s)"

definition startswith :: "string \<Rightarrow> string \<Rightarrow> bool" where
  "startswith s p = (take (length p) s = p)"

text \<open>\<open>s.split(c, 1)\<close> for a string that contains \<open>c\<close>: the text before the first
  \<open>c\<close> and the text after it.\<close>

definition split_first :: "char \<Rightarrow> string \<Rightarrow> string \<times> string" where
  "split_first c s = (takeWhile (\<lambda>x. x \<noteq> c) s, drop 1 (dropWhile (\<lambda>x. x \<noteq> c) s))"

text \<open>\<open>s.split(c)\<close>: the pieces between the occurrences of \<open>c\<close>; never empty.\<close>

fun split_on :: "char \<Rightarrow> string \<Rightarrow> string list" where
  "split_on c [] = [[]]"
| "split_on c (x # xs) =
     (if x = c then [] # split_on c xs
      else (case split_on c xs of [] \<Rightarrow> [[x]] | piece # pieces \<Rightarrow> (x # piece) # pieces))"

text \<open>\<open>sep.join(xs)\<close>.\<close>

fun join :: "string \<Rightarrow> string list \<Rightarrow> string" where
  "join sep [] = []"
| "join sep [x] = x"
| "join sep (x # y # ys) = x @ sep @ join sep (y # ys)"

section \<open>The URL library\<close>

text \<open>
  \<open>normalize_url\<close>, \<open>is_valid_url\<close>, the inline renderer and the link extractor call
  \<open>urlparse\<close> and \<open>urljoin\<close> of the standard library. Their definitions follow
  \<open>urllib/parse.py\<close> of CPython 3.11 line by line, for \<open>str\<close> arguments and
  \<open>allow_fragments = True\<close>. The library raises \<open>ValueError\<close> on a malformed bracketed
  host; an exception is the value \<open>Inl ValueError\<close>. The validity of the text between the
  brackets (\<open>_check_bracketed_host\<close>, which relies on the \<open>ipaddress\<close> module) is a
  parameter \<open>ok\<close> of the model. \<open>_checknetloc\<close> returns at once on an ASCII host.
\<close>

datatype error = ValueError

definition uses_relative :: "string list" where
  "uses_relative = ['''', ''ftp'', ''http'', ''gopher'', ''nntp'', ''imap'',
                    ''wais'', ''file'', ''https'', ''shttp'', ''mms'',
                    ''prospero'', ''rtsp'', ''rtsps'', ''rtspu'', ''sftp'',
                    ''svn'', ''svn+ssh'', ''ws'', ''wss'']"

definition uses_netloc :: "string list" where
  "uses_netloc = ['''', ''ftp'', ''http'', ''gopher'', ''nntp'', ''telnet'',
                  ''imap'', ''wais'', ''file'', ''mms'', ''https'', ''shttp'',
                  ''snews'', ''prospero'', ''rtsp'', ''rtsps'', ''rtspu'', ''rsync'',
                  ''svn'', ''svn+ssh'', ''sftp'', ''nfs'', ''git'', ''git+ssh'',
                  ''ws'', ''wss'']"

definition uses_params :: "string list" where
  "uses_params = ['''', ''ftp'', ''hdl'', ''prospero'', ''http'', ''imap'',
                  ''https'', ''shttp'', ''rtsp'', ''rtsps'', ''rtspu'', ''sip'',
                  ''sips'', ''mms'', ''sftp'', ''tel'']"

definition scheme_chars :: string where
  "scheme_chars = ascii_lowercase @ ascii_uppercase @ ''0123456789'' @ ''+-.''"

definition c0_control_or_space :: "char \<Rightarrow> bool" where
  "c0_control_or_space c = (of_char c \<le> (32::nat))"

definition unsafe_url_byte :: "char \<Rightarrow> bool" where
  "unsafe_url_byte c = (c \<in> set [CHR 0x09, CHR 0x0D, CHR 0x0A])"

definition isalpha :: "char \<Rightarrow> bool" where
  "isalpha c = (c \<in> set (ascii_lowercase @ ascii_uppercase))"

text \<open>\<open>_splitnetloc(url, 2)\<close>: the host part runs to the first of \<open>/\<close>, \<open>?\<close>, \<open>#\<close>.\<close>

definition netloc_char :: "char \<Rightarrow> bool" where
  "netloc_char c = (c \<notin> set ''/?#'')"

definition splitnetloc :: "string \<Rightarrow> string \<times> string" where
  "splitnetloc url = (takeWhile netloc_char (drop 2 url), dropWhile netloc_char (drop 2 url))"

definition bracketed_host :: "string \<Rightarrow> string" where
  "bracketed_host nl =
     takeWhile (\<lambda>c. c \<noteq> CHR '']'') (drop 1 (dropWhile (\<lambda>c. c \<noteq> CHR ''['') nl))"

definition urlsplit ::
  "(string \<Rightarrow> bool) \<Rightarrow> string \<Rightarrow> string \<Rightarrow>
     error + (string \<times> string \<times> string \<times> string \<times> string)" where
  "urlsplit ok url0 scheme0 =
     (let url1 = filter (\<lambda>c. \<not> unsafe_url_byte c) (lstrip c0_control_or_space url0);
          scheme1 = filter (\<lambda>c. \<not> unsafe_url_byte c) (strip c0_control_or_space scheme0);
          i = length (takeWhile (\<lambda>c. c \<noteq> CHR '':'') url1);
          found = (CHR '':'' \<in> set url1 \<and> 0 < i \<and> isalpha (hd url1) \<and>
                   list_all (\<lambda>c. c \<in> set scheme_chars) (take i url1));
          scheme2 = (if found then lower (take i url1) else scheme1);
          url2 = (if found then drop (i + 1) url1 else url1);
          slashes = (take 2 url2 = ''//'');
          nl = (if slashes then fst (splitnetloc url2) else '''');
          url3 = (if slashes then snd (splitnetloc url2) else url2);
          lb = (CHR ''['' \<in> set nl);
          rb = (CHR '']'' \<in> set nl)
      in if slashes \<and> lb \<noteq> rb then Inl ValueError
         else if slashes \<and> lb \<and> rb \<and> \<not> ok (bracketed_host nl) then Inl ValueError
         else
           (let frag = (if CHR ''#'' \<in> set url3 then snd (split_first CHR ''#'' url3) else '''');
                url4 = (if CHR ''#'' \<in> set url3 then fst (split_first CHR ''#'' url3) else url3);
                qry = (if CHR ''?'' \<in> set url4 then snd (split_first CHR ''?'' url4) else '''');
                url5 = (if CHR ''?'' \<in> set url4 then fst (split_first CHR ''?'' url4) else url4)
            in Inr (scheme2, nl, url5, qry, frag)))"

record ParseResult =
  scheme :: string
  netloc :: string
  path :: string
  params :: string
  query :: string
  fragment :: string

text \<open>\<open>s.rfind(c)\<close> for a string that contains \<open>c\<close>.\<close>

definition rfind :: "char \<Rightarrow> string \<Rightarrow> nat" where
  "rfind c s = length s - 1 - length (takeWhile (\<lambda>x. x \<noteq> c) (rev s))"

definition splitparams :: "string \<Rightarrow> string \<times> string" where
  "splitparams url =
     (if CHR ''/'' \<in> set url then
        (let k = rfind CHR ''/'' url in
         if CHR '';'' \<in> set (drop k url)
         then (let i = k + length (takeWhile (\<lambda>x. x \<noteq> CHR '';'') (drop k url))
               in (take i url, drop (i + 1) url))
         else (url, ''''))
      else (let i = length (takeWhile (\<lambda>x. x \<noteq> CHR '';'') url)
            in (take i url, drop (i + 1) url)))"

definition urlparse :: "(string \<Rightarrow> bool) \<Rightarrow> string \<Rightarrow> string \<Rightarrow> error + ParseResult" where
  "urlparse ok url scheme0 =
     (case urlsplit ok url scheme0 of
        Inl e \<Rightarrow> Inl e
      | Inr (sch, nl, u, q, f) \<Rightarrow>
          (let split = (sch \<in> set uses_params \<and> CHR '';'' \<in> set u)
           in Inr \<lparr>scheme = sch, netloc = nl,
                    path = (if split then fst (splitparams u) else u),
                    params = (if split then snd (splitparams u) else ''''),
                    query = q, fragment = f\<rparr>))"

definition urlunsplit :: "string \<Rightarrow> string \<Rightarrow> string \<Rightarrow> string \<Rightarrow> string \<Rightarrow> string" where
  "urlunsplit sch nl url0 q f =
     (let url1 = (if nl \<noteq> '''' \<or> (sch \<noteq> '''' \<and> sch \<in> set uses_netloc) \<or> take 2 url0 = ''//''
                  then ''//'' @ nl @ (if url0 \<noteq> '''' \<and> take 1 url0 \<noteq> ''/'' then ''/'' @ url0 else url0)
                  else url0);
          url2 = (if sch \<noteq> '''' then sch @ '':'' @ url1 else url1);
          url3 = (if q \<noteq> '''' then url2 @ ''?'' @ q else url2)
      in if f \<noteq> '''' then url3 @ ''#'' @ f else url3)"

definition urlunparse :: "ParseResult \<Rightarrow> string" where
  "urlunparse r =
     urlunsplit (scheme r) (netloc r)
       (if params r \<noteq> '''' then path r @ '';'' @ params r else path r) (query r) (fragment r)"

text \<open>The loop of \<open>urljoin\<close> over the path segments: \<open>..\<close> pops the last resolved
  segment when there is one, \<open>.\<close> is skipped, any other segment is appended.\<close>

fun resolve :: "string list \<Rightarrow> string list \<Rightarrow> string list" where
  "resolve resolved_path [] = resolved_path"
| "resolve resolved_path (seg # segs) =
     (if seg = ''..'' then resolve (butlast resolved_path) segs
      else if seg = ''.'' then resolve resolved_path segs
      else resolve (resolved_path @ [seg]) segs)"

text \<open>\<open>segments[1:-1] = filter(None, segments[1:-1])\<close>.\<close>

definition filter_inner :: "string list \<Rightarrow> string list" where
  "filter_inner segments =
     (if length segments < 2 then segments
      else hd segments # filter (\<lambda>s. s \<noteq> '''') (butlast (tl segments)) @ [last segments])"

definition urljoin :: "(string \<Rightarrow> bool) \<Rightarrow> string \<Rightarrow> string \<Rightarrow> error + string" where
  "urljoin ok base url =
     (if base = '''' then Inr url
      else if url = '''' then Inr base
      else
        (case urlparse ok base '''' of
           Inl e \<Rightarrow> Inl e
         | Inr b \<Rightarrow>
             (case urlparse ok url (scheme b) of
                Inl e \<Rightarrow> Inl e
              | Inr u \<Rightarrow>
                  if scheme u \<noteq> scheme b \<or> scheme u \<notin> set uses_relative then Inr url
                  else if scheme u \<in> set uses_netloc \<and> netloc u \<noteq> '''' then Inr (urlunparse u)
                  else
                    (let nl = (if scheme u \<in> set uses_netloc then netloc b else netloc u)
                     in if path u = '''' \<and> params u = '''' then
                          Inr (urlunparse (u\<lparr>netloc := nl, path := path b, params := params b,
                                 query := (if query u = '''' then query b else query u)\<rparr>))
                        else
                          (let base_parts0 = split_on CHR ''/'' (path b);
                               base_parts = (if last base_parts0 \<noteq> '''' then butlast base_parts0
                                             else base_parts0);
                               segments = (if take 1 (path u) = ''/'' then split_on CHR ''/'' (path u)
                                           else filter_inner (base_parts @ split_on CHR ''/'' (path u)));
                               resolved0 = resolve [] segments;
                               resolved_path = (if last segments = ''.'' \<or> last segments = ''..''
                                                then resolved0 @ [''''] else resolved0);
                               joined = join ''/'' resolved_path
                           in Inr (urlunparse (u\<lparr>netloc := nl,
                                 path := (if joined = '''' then ''/'' else joined)\<rparr>)))))))"

section \<open>The parsed document\<close>

text \<open>
  The HTML parser is a collaborator: the model starts from the tree it builds. A node is
  a text node, a comment (a \<open>NavigableString\<close> too, but left out of \<open>get_text\<close>), or a
  tag with its name, its attributes in source order and its children. The document
  itself is a tag named \<open>[document]\<close>. An attribute holds its text as written; the
  parser splits the \<open>class\<close> attribute into its whitespace-separated tokens, which
  \<open>class_tokens\<close> does on demand.

  A tag knows its parent. An element is therefore a node together with the names of its
  ancestors, nearest first, which is all that \<open>find_parent\<close> is asked for.
\<close>

datatype node =
    NavigableString string
  | Comment string
  | Tag string "(string \<times> string) list" "node list"

type_synonym element = "string list \<times> node"

fun name :: "node \<Rightarrow> string" where
  "name (Tag nm as kids) = nm"
| "name _ = []"

fun attrs :: "node \<Rightarrow> (string \<times> string) list" where
  "attrs (Tag nm as kids) = as"
| "attrs _ = []"

fun children :: "node \<Rightarrow> node list" where
  "children (Tag nm as kids) = kids"
| "children _ = []"

fun is_tag :: "node \<Rightarrow> bool" where
  "is_tag (Tag nm as kids) = True"
| "is_tag _ = False"

text \<open>\<open>tag.get(key, '')\<close>.\<close>

definition get :: "node \<Rightarrow> string \<Rightarrow> string" where
  "get n key = (case map_of (attrs n) key of Some v \<Rightarrow> v | None \<Rightarrow> '''')"

text \<open>\<open>s.split()\<close>: the maximal runs of characters that are not whitespace.\<close>

fun words_from :: "string \<Rightarrow> string \<Rightarrow> string list" where
  "words_from w [] = (if w = [] then [] else [w])"
| "words_from w (c # cs) =
     (if isspace c then (if w = [] then words_from [] cs else w # words_from [] cs)
      else words_from (w @ [c]) cs)"

definition class_tokens :: "node \<Rightarrow> string list" where
  "class_tokens n = (case map_of (attrs n) ''class'' of Some v \<Rightarrow> words_from [] v | None \<Rightarrow> [])"

text \<open>The proper descendants of a node in document order, each with its ancestors.\<close>

fun descendants :: "string list \<Rightarrow> node \<Rightarrow> element list" where
  "descendants anc (Tag nm as kids) =
     concat (map (\<lambda>k. (nm # anc, k) # descendants (nm # anc) k) kids)"
| "descendants anc _ = []"

text \<open>\<open>find_all(names)\<close>, \<open>find_all(names, recursive=False)\<close> and \<open>find(...)\<close>, the
  first element of \<open>find_all\<close>, with the filter on the tag as a predicate.\<close>

definition find_all :: "element \<Rightarrow> (node \<Rightarrow> bool) \<Rightarrow> element list" where
  "find_all e p = filter (\<lambda>d. is_tag (snd d) \<and> p (snd d)) (descendants (fst e) (snd e))"

definition find_all_children :: "element \<Rightarrow> (node \<Rightarrow> bool) \<Rightarrow> element list" where
  "find_all_children e p =
     map (\<lambda>k. (name (snd e) # fst e, k)) (filter (\<lambda>k. is_tag k \<and> p k) (children (snd e)))"

definition find :: "element \<Rightarrow> (node \<Rightarrow> bool) \<Rightarrow> element option" where
  "find e p = (case find_all e p of [] \<Rightarrow> None | d # ds \<Rightarrow> Some d)"

definition named :: "string list \<Rightarrow> node \<Rightarrow> bool" where
  "named names n = (name n \<in> set names)"

text \<open>\<open>element.find_parent(nm)\<close> is not \<open>None\<close>.\<close>

definition has_parent :: "element \<Rightarrow> string \<Rightarrow> bool" where
  "has_parent e nm = (nm \<in> set (fst e))"

text \<open>The text nodes below a node in document order, \<open>get_text()\<close> and
  \<open>get_text(strip=True)\<close>: the latter strips every text node and drops the empty ones.\<close>

fun strings :: "node \<Rightarrow> string list" where
  "strings (NavigableString s) = [s]"
| "strings (Comment s) = []"
| "strings (Tag nm as kids) = concat (map strings kids)"

definition get_text :: "node \<Rightarrow> string" where
  "get_text n = concat (strings n)"

definition get_text_strip :: "node \<Rightarrow> string" where
  "get_text_strip n = concat (filter (\<lambda>s. s \<noteq> []) (map (strip isspace) (strings n)))"

text \<open>\<open>elem.decompose()\<close> for every tag with one of the names: the tags leave the tree
  with everything below them.\<close>

fun decompose :: "string list \<Rightarrow> node \<Rightarrow> node" where
  "decompose names (Tag nm as kids) =
     Tag nm as (map (decompose names) (filter (\<lambda>k. \<not> (is_tag k \<and> name k \<in> set names)) kids))"
| "decompose names n = n"

section \<open>Regular expressions of the scraper\<close>

text \<open>\<open>p in s\<close> for strings.\<close>

fun contains :: "string \<Rightarrow> string \<Rightarrow> bool" where
  "contains p [] = (p = [])"
| "contains p (c # cs) = (take (length p) (c # cs) = p \<or> contains p cs)"

text \<open>\<open>re.compile('a|b|c', re.I).search(s)\<close> for alternatives that are plain words.\<close>

definition re_search :: "string list \<Rightarrow> string \<Rightarrow> bool" where
  "re_search alts s = list_ex (\<lambda>a. contains (lower a) (lower s)) alts"

text \<open>How the DOM library matches a compiled pattern against an attribute: each token
  of the multi-valued \<open>class\<close>, then the tokens joined by single spaces; the text of any
  other attribute that is present.\<close>

definition attr_search :: "string \<Rightarrow> string list \<Rightarrow> node \<Rightarrow> bool" where
  "attr_search key alts n =
     (if key = ''class'' then
        (case map_of (attrs n) key of
           None \<Rightarrow> False
         | Some v \<Rightarrow> list_ex (re_search alts) (class_tokens n) \<or>
                      re_search alts (join '' '' (class_tokens n)))
      else (case map_of (attrs n) key of None \<Rightarrow> False | Some v \<Rightarrow> re_search alts v))"

text \<open>\<open>re.sub(r'\s+', ' ', text)\<close>; the flag says that the previous character was
  whitespace of a run already replaced.\<close>

fun sub_spaces :: "bool \<Rightarrow> string \<Rightarrow> string" where
  "sub_spaces in_run [] = []"
| "sub_spaces in_run (c # cs) =
     (if isspace c then (if in_run then sub_spaces True cs else CHR '' '' # sub_spaces True cs)
      else c # sub_spaces False cs)"

text \<open>\<open>re.sub(r'\n{4,}', '\n\n\n', md)\<close>; \<open>n\<close> counts the newlines of the run being
  read: a run of four or more becomes three, a shorter one stays.\<close>

fun sub_newlines :: "nat \<Rightarrow> string \<Rightarrow> string" where
  "sub_newlines n [] = replicate (min n 3) CHR 0x0A"
| "sub_newlines n (c # cs) =
     (if c = CHR 0x0A then sub_newlines (Suc n) cs
      else replicate (min n 3) CHR 0x0A @ c # sub_newlines 0 cs)"

text \<open>\<open>s.replace(old, '')\<close> for a non-empty \<open>old\<close>.\<close>

fun remove_all :: "string \<Rightarrow> string \<Rightarrow> nat \<Rightarrow> string" where
  "remove_all old [] skip = []"
| "remove_all old (c # cs) skip =
     (if 0 < skip then remove_all old cs (skip - 1)
      else if old \<noteq> [] \<and> take (length old) (c # cs) = old then remove_all old cs (length old - 1)
      else c # remove_all old cs 0)"

section \<open>The scraper\<close>

text \<open>
  The object of class \<open>WebScraper\<close> in two records. \<open>WebScraper\<close> holds the fields
  that \<open>__init__\<close> sets and nothing assigns again (\<open>delay\<close>, \<open>timeout\<close> and \<open>headers\<close>
  are only handed to the collaborators and are left out). \<open>run\<close> holds the two fields
  that a crawl updates, \<open>visited_urls\<close> and \<open>results\<close>, and two more that record what
  the crawl does to the outside: \<open>trace\<close> lists its effects in the order in which they
  happen, and \<open>raised\<close> holds the exception that left \<open>scrape\<close>, if any.
  \<open>Added u\<close> is \<open>visited_urls.add(u)\<close>, \<open>Sleep\<close> is \<open>time.sleep(delay)\<close>, and
  \<open>Fetch u d\<close> is the call \<open>fetch_page(u)\<close> made by \<open>scrape(u, d)\<close>.
\<close>

datatype event = Added string | Sleep | Fetch string int

record WebScraper =
  base_url :: string
  max_depth :: int
  base_domain :: string

record run =
  visited_urls :: "string set"
  results :: "string list"
  trace :: "event list"
  raised :: "error option"

text \<open>
  A response of the library \<open>requests\<close>: its status code and its text, the body, as
  the document that the parser makes of it.
\<close>

datatype response = Response (status_code: int) (response_text: node)

text \<open>
  What the scraper is given from outside: the library's check of a bracketed host, the
  network, and the iteration order of a Python set. \<open>requests_get t u\<close> is what the call
  \<open>requests.get(u, ..., allow_redirects=True)\<close> does after the effects \<open>t\<close>: \<open>None\<close> when
  it raises \<open>RequestException\<close> (no connection, timeout, too many redirects), and else
  the response that the library returns, the last one after the redirects it followed,
  whatever its status code. No other exception of the library is modelled. A set is
  iterated in the order of the hash values of its members, \<open>hash_key\<close>.
\<close>

record env =
  check_bracketed_host :: "string \<Rightarrow> bool"
  requests_get :: "event list \<Rightarrow> string \<Rightarrow> response option"
  hash_key :: "string \<Rightarrow> nat"

definition init :: "env \<Rightarrow> string \<Rightarrow> int \<Rightarrow> error + WebScraper" where
  "init E url depth =
     (case urlparse (check_bracketed_host E) url [] of
        Inl e \<Rightarrow> Inl e
      | Inr parsed \<Rightarrow> Inr \<lparr>base_url = url, max_depth = depth, base_domain = netloc parsed\<rparr>)"

definition start :: run where
  "start = \<lparr>visited_urls = {}, results = [], trace = [], raised = None\<rparr>"

definition is_valid_url :: "env \<Rightarrow> WebScraper \<Rightarrow> string \<Rightarrow> bool" where
  "is_valid_url E self url =
     (case urlparse (check_bracketed_host E) url '''' of
        Inl e \<Rightarrow> False
      | Inr parsed \<Rightarrow> netloc parsed \<noteq> '''' \<and> netloc parsed = base_domain self)"

definition normalize_url :: "env \<Rightarrow> WebScraper \<Rightarrow> string \<Rightarrow> error + string" where
  "normalize_url E self url0 =
     (case urljoin (check_bracketed_host E) (base_url self) url0 of
        Inl e \<Rightarrow> Inl e
      | Inr url \<Rightarrow>
          (case urlparse (check_bracketed_host E) url '''' of
             Inl e \<Rightarrow> Inl e
           | Inr parsed \<Rightarrow>
               (let clean_url = scheme parsed @ ''://'' @ netloc parsed @ path parsed;
                    clean_url' = (if query parsed \<noteq> '''' then clean_url @ ''?'' @ query parsed
                                  else clean_url)
                in Inr (rstrip (\<lambda>c. c = CHR ''/'') clean_url'))))"

subsection \<open>The content locator\<close>

text \<open>A selector is a tag name with nothing, or with an attribute and the alternatives
  of the pattern its value is searched for.\<close>

type_synonym selector = "string \<times> (string \<times> string list) option"

definition selectors :: "selector list" where
  "selectors =
     [(''main'', None),
      (''article'', None),
      (''div'', Some (''class'', [''content__default'', ''content'', ''main-content'',
                                  ''documentation'', ''docs-content''])),
      (''div'', Some (''id'', [''content'', ''main'', ''documentation''])),
      (''div'', Some (''class'', [''markdown'', ''prose'', ''post'']))]"

definition selects :: "selector \<Rightarrow> node \<Rightarrow> bool" where
  "selects sel n =
     (name n = fst sel \<and>
      (case snd sel of None \<Rightarrow> True | Some (key, alts) \<Rightarrow> attr_search key alts n))"

fun try_selectors :: "element \<Rightarrow> selector list \<Rightarrow> element option" where
  "try_selectors soup [] = None"
| "try_selectors soup (sel # sels) =
     (case find soup (selects sel) of
        Some element \<Rightarrow>
          (if fst sel = ''main'' then
             (case find element (selects (''div'', Some (''class'', [''content'']))) of
                Some content_div \<Rightarrow> Some content_div
              | None \<Rightarrow> Some element)
           else Some element)
      | None \<Rightarrow> try_selectors soup sels)"

definition find_content_container :: "element \<Rightarrow> element" where
  "find_content_container soup =
     (case try_selectors soup selectors of
        Some element \<Rightarrow> element
      | None \<Rightarrow> (case find soup (named [''body'']) of Some body \<Rightarrow> body | None \<Rightarrow> soup))"

subsection \<open>The renderers\<close>

fun get_code_language_loop :: "string list \<Rightarrow> string" where
  "get_code_language_loop [] = ''php''"
| "get_code_language_loop (cls # classes) =
     (if startswith cls ''language-'' then remove_all ''language-'' cls 0
      else if startswith cls ''lang-'' then remove_all ''lang-'' cls 0
      else get_code_language_loop classes)"

definition get_code_language :: "node \<Rightarrow> string" where
  "get_code_language element = get_code_language_loop (class_tokens element)"

definition clean_heading_text :: "string \<Rightarrow> string" where
  "clean_heading_text text0 =
     (let text1 = (if take 1 text0 = ''#''
                   then dropWhile isspace (dropWhile (\<lambda>c. c = CHR ''#'') text0) else text0)
      in strip isspace (sub_spaces False text1))"

definition clean_text :: "string \<Rightarrow> string" where
  "clean_text text0 = strip isspace (sub_spaces False text0)"

fun process_inline_elements_loop :: "env \<Rightarrow> node list \<Rightarrow> string \<Rightarrow> error + string" where
  "process_inline_elements_loop E [] url = Inr []"
| "process_inline_elements_loop E (child # rest) url =
     (case (case child of
              NavigableString s \<Rightarrow> Inr s
            | Comment s \<Rightarrow> Inr s
            | Tag nm as kids \<Rightarrow>
                if nm = ''code'' then Inr (''`'' @ get_text child @ ''`'')
                else if nm = ''a'' then
                  (case urljoin (check_bracketed_host E) url (get child ''href'') of
                     Inl e \<Rightarrow> Inl e
                   | Inr href \<Rightarrow> Inr (''['' @ get_text child @ '']('' @ href @ '')''))
                else if nm \<in> set [''strong'', ''b''] then Inr (''**'' @ get_text child @ ''**'')
                else if nm \<in> set [''em'', ''i''] then Inr (''*'' @ get_text child @ ''*'')
                else Inr (get_text child)) of
        Inl e \<Rightarrow> Inl e
      | Inr piece \<Rightarrow>
          (case process_inline_elements_loop E rest url of
             Inl e \<Rightarrow> Inl e
           | Inr pieces \<Rightarrow> Inr (piece @ pieces)))"

definition process_inline_elements :: "env \<Rightarrow> node \<Rightarrow> string \<Rightarrow> error + string" where
  "process_inline_elements E element url = process_inline_elements_loop E (children element) url"

text \<open>The \<open>while\<close> loop that pads a row: \<open>row.append('')\<close> until the row is as long as
  the header.\<close>

function pad :: "string list \<Rightarrow> nat \<Rightarrow> string list" where
  "pad row n = (if length row < n then pad (row @ ['''']) n else row)"
  by pat_completeness auto
termination
  by (relation "measure (\<lambda>(row, n). n - length row)") auto

declare pad.simps [simp del]

definition table_rows :: "element \<Rightarrow> string list list" where
  "table_rows tbody =
     filter (\<lambda>cells. cells \<noteq> [])
       (map (\<lambda>tr. map (\<lambda>cell. get_text_strip (snd cell)) (find_all tr (named [''td'', ''th''])))
          (find_all tbody (named [''tr''])))"

definition table_to_markdown :: "element \<Rightarrow> string" where
  "table_to_markdown table =
     (let headers0 = (case find table (named [''thead'']) of
                        Some thead \<Rightarrow> map (\<lambda>th. get_text_strip (snd th)) (find_all thead (named [''th'']))
                      | None \<Rightarrow> []);
          tbody = (case find table (named [''tbody'']) of Some tb \<Rightarrow> tb | None \<Rightarrow> table);
          rows0 = table_rows tbody;
          headers = (if headers0 = [] \<and> rows0 \<noteq> [] then hd rows0 else headers0);
          rows = (if headers0 = [] \<and> rows0 \<noteq> [] then tl rows0 else rows0)
      in if headers = [] then ''''
         else [CHR 0x0A] @ ''| '' @ join '' | '' headers @ '' |'' @ [CHR 0x0A] @
              ''| '' @ join '' | '' (replicate (length headers) ''---'') @ '' |'' @ [CHR 0x0A] @
              concat (map (\<lambda>row. ''| '' @ join '' | '' (take (length headers) (pad row (length headers)))
                                   @ '' |'' @ [CHR 0x0A]) rows))"

text \<open>\<open>str(i)\<close> for a natural number, and \<open>int(c)\<close> for a digit.\<close>

function str :: "nat \<Rightarrow> string" where
  "str n = (if n < 10 then [char_of (48 + n)] else str (n div 10) @ [char_of (48 + n mod 10)])"
  by pat_completeness auto
termination
  by (relation "measure (\<lambda>n. n)") auto

declare str.simps [simp del]

definition digit :: "char \<Rightarrow> nat" where
  "digit c = of_char c - 48"

definition headings :: "string list" where
  "headings = [''h1'', ''h2'', ''h3'', ''h4'', ''h5'', ''h6'']"

definition blocks :: "string list" where
  "blocks = [''h1'', ''h2'', ''h3'', ''h4'', ''h5'', ''h6'', ''p'', ''pre'', ''ul'', ''ol'',
             ''table'', ''blockquote'', ''img'', ''svg'']"

text \<open>The items of a list block: \<open>enumerate(element.find_all('li', recursive=False), 1)\<close>.\<close>

fun list_items :: "bool \<Rightarrow> nat \<Rightarrow> element list \<Rightarrow> string list" where
  "list_items ordered i [] = []"
| "list_items ordered i (li # lis) =
     (if ordered then ''  '' @ str i @ ''. '' @ clean_text (get_text (snd li))
      else ''  - '' @ clean_text (get_text (snd li)))
     # list_items ordered (Suc i) lis"

text \<open>The fenced block of a \<open>pre\<close> element.\<close>

definition code_block :: "element \<Rightarrow> string" where
  "code_block element =
     (let code = find element (named [''code'']);
          lang = (case code of Some c \<Rightarrow> get_code_language (snd c)
                  | None \<Rightarrow> get_code_language (snd element));
          code_text = (case code of Some c \<Rightarrow> get_text (snd c)
                       | None \<Rightarrow> get_text (snd element))
      in [CHR 0x0A] @ ''```'' @ lang @ [CHR 0x0A] @ code_text @ ''```'' @ [CHR 0x0A])"

definition list_block :: "element \<Rightarrow> string" where
  "list_block element =
     [CHR 0x0A] @
     join [CHR 0x0A] (list_items (name (snd element) = ''ol'') 1
                        (find_all_children element (named [''li'']))) @
     [CHR 0x0A]"

text \<open>
  The body of the loop of \<open>extract_markdown\<close> after its two guards: the fragments that
  one block element appends to \<open>md_parts\<close>, or the exception that \<open>urljoin\<close> raises.
\<close>

definition render :: "env \<Rightarrow> element \<Rightarrow> string \<Rightarrow> error + string list" where
  "render E element url =
     (let nm = name (snd element) in
      if nm \<in> set headings then
        Inr [[CHR 0x0A] @ replicate (digit (nm ! 1)) CHR ''#'' @ '' '' @
             clean_heading_text (get_text (snd element)) @ [CHR 0x0A]]
      else if nm = ''p'' then
        (case process_inline_elements E (snd element) url of
           Inl e \<Rightarrow> Inl e
         | Inr text0 \<Rightarrow>
             if clean_text text0 \<noteq> '''' then Inr [[CHR 0x0A] @ clean_text text0 @ [CHR 0x0A]]
             else Inr [])
      else if nm = ''pre'' then Inr [code_block element]
      else if nm \<in> set [''ul'', ''ol''] then Inr [list_block element]
      else if nm = ''blockquote'' then
        Inr [[CHR 0x0A] @
             join [CHR 0x0A]
               (map (\<lambda>line. ''> '' @ line)
                  (filter (\<lambda>line. strip isspace line \<noteq> '''')
                     (split_on CHR 0x0A (clean_text (get_text (snd element)))))) @
             [CHR 0x0A]]
      else if nm = ''table'' then
        (if table_to_markdown element \<noteq> '''' then Inr [table_to_markdown element] else Inr [])
      else if nm = ''img'' then
        (case urljoin (check_bracketed_host E) url (get (snd element) ''src'') of
           Inl e \<Rightarrow> Inl e
         | Inr src \<Rightarrow>
             Inr [[CHR 0x0A] @ ''!['' @ get (snd element) ''alt'' @ '']('' @ src @ '')'' @ [CHR 0x0A]])
      else if nm = ''svg'' then
        Inr [[CHR 0x0A] @ ''*[SVG Diagram: '' @
             (case find element (named [''title'']) of
                Some title_elem \<Rightarrow> get_text (snd title_elem)
              | None \<Rightarrow> ''Diagram'') @
             '']*'' @ [CHR 0x0A]]
      else Inr [])"

text \<open>
  The loop over \<open>elements\<close>. \<open>id(element)\<close> is the position of the element in
  \<open>elements\<close>: \<open>find_all\<close> returns every tag object once, so that two entries of
  \<open>elements\<close> are never the same object.
\<close>

fun extract_loop ::
  "env \<Rightarrow> string \<Rightarrow> (nat \<times> element) list \<Rightarrow> nat set \<Rightarrow> string list \<Rightarrow> error + string list" where
  "extract_loop E url [] processed md_parts = Inr md_parts"
| "extract_loop E url ((i, element) # rest) processed md_parts =
     (if i \<in> processed then extract_loop E url rest processed md_parts
      else if has_parent element ''pre'' \<or> has_parent element ''code''
      then extract_loop E url rest processed md_parts
      else
        (case render E element url of
           Inl e \<Rightarrow> Inl e
         | Inr parts \<Rightarrow> extract_loop E url rest (insert i processed) (md_parts @ parts)))"

definition unwanted :: "string list" where
  "unwanted = [''script'', ''style'', ''nav'', ''footer'', ''header'', ''aside'']"

text \<open>\<open>extract_markdown\<close> in two steps: the list \<open>md_parts\<close> as it stands after the
  loop, which starts from the fragments of the page header, then the join of its
  fragments and the clean-up of the newlines.\<close>

definition md_parts :: "env \<Rightarrow> node \<Rightarrow> string \<Rightarrow> error + string list" where
  "md_parts E html url =
     (let soup = ([], decompose unwanted html);
          title_text = (case find soup (named [''title'']) of
                          Some title \<Rightarrow> get_text_strip (snd title) | None \<Rightarrow> '''');
          description =
            (case find soup (\<lambda>n. name n = ''meta'' \<and> map_of (attrs n) ''name'' = Some ''description'') of
               Some meta_desc \<Rightarrow> get (snd meta_desc) ''content'' | None \<Rightarrow> '''');
          content = find_content_container soup;
          header = [''# '' @ title_text @ [CHR 0x0A],
                    [CHR 0x0A] @ ''**URL:** '' @ url @ [CHR 0x0A]] @
                   (if description \<noteq> ''''
                    then [[CHR 0x0A] @ ''**Description:** '' @ description @ [CHR 0x0A]] else []) @
                   [[CHR 0x0A] @ ''---'' @ [CHR 0x0A]];
          elements = find_all content (named blocks)
      in extract_loop E url (enumerate 0 elements) {} header)"

definition extract_markdown :: "env \<Rightarrow> node \<Rightarrow> string \<Rightarrow> error + string" where
  "extract_markdown E html url =
     (case md_parts E html url of
        Inl e \<Rightarrow> Inl e
      | Inr parts \<Rightarrow> Inr (sub_newlines 0 (concat parts)))"

subsection \<open>The link extractor\<close>

fun get_internal_links_loop ::
  "env \<Rightarrow> WebScraper \<Rightarrow> string set \<Rightarrow> element list \<Rightarrow> string \<Rightarrow> error + string list" where
  "get_internal_links_loop E self visited [] url = Inr []"
| "get_internal_links_loop E self visited (a # rest) url =
     (case urljoin (check_bracketed_host E) url (get (snd a) ''href'') of
        Inl e \<Rightarrow> Inl e
      | Inr href \<Rightarrow>
          (case normalize_url E self href of
             Inl e \<Rightarrow> Inl e
           | Inr normalized \<Rightarrow>
               (case get_internal_links_loop E self visited rest url of
                  Inl e \<Rightarrow> Inl e
                | Inr links \<Rightarrow>
                    Inr (if is_valid_url E self normalized \<and> normalized \<notin> visited
                         then normalized # links else links))))"

text \<open>\<open>list(set(links))\<close>: the distinct links in the order of their hash values.\<close>

definition get_internal_links ::
  "env \<Rightarrow> WebScraper \<Rightarrow> string set \<Rightarrow> node \<Rightarrow> string \<Rightarrow> error + string list" where
  "get_internal_links E self visited html url =
     (case get_internal_links_loop E self visited
             (find_all ([], html) (\<lambda>n. name n = ''a'' \<and> map_of (attrs n) ''href'' \<noteq> None)) url of
        Inl e \<Rightarrow> Inl e
      | Inr links \<Rightarrow> Inr (sort_key (hash_key E) (remdups links)))"

subsection \<open>The crawl\<close>

text \<open>
  \<open>scrape(url, depth)\<close> and its loop over the links of a page, \<open>scrape_links\<close>. The
  argument \<open>url\<close> is \<open>None\<close> in the call that \<open>main\<close> makes. An exception ends the
  call and every loop around it: the state reached is kept, with \<open>raised\<close> set.
  \<open>enter\<close> is the step from the guard to the fetch: the URL joins the visited set, and
  the crawl sleeps unless this is its first page. \<open>fetch_page url depth\<close> is the call
  \<open>fetch_page(url)\<close> made at the depth \<open>depth\<close>, with the fetch recorded in the state:
  \<open>None\<close> when \<open>requests.get\<close> or \<open>raise_for_status\<close> raises \<open>RequestException\<close>,
  and the text of the response otherwise. What the functions print is left
  out, and so is the recursion limit of the interpreter.
\<close>

definition enter :: "string \<Rightarrow> run \<Rightarrow> run" where
  "enter url s =
     (let s1 = s\<lparr>visited_urls := insert url (visited_urls s), trace := trace s @ [Added url]\<rparr>
      in if card (visited_urls s1) > 1 then s1\<lparr>trace := trace s1 @ [Sleep]\<rparr> else s1)"

text \<open>\<open>raise_for_status response\<close> holds when \<open>response.raise_for_status()\<close> raises
  \<open>HTTPError\<close>, which is a \<open>RequestException\<close>: the status code is one of 400 to 599.\<close>

definition raise_for_status :: "response \<Rightarrow> bool" where
  "raise_for_status response = (400 \<le> status_code response \<and> status_code response < 600)"

definition fetch_page :: "env \<Rightarrow> string \<Rightarrow> int \<Rightarrow> run \<Rightarrow> node option \<times> run" where
  "fetch_page E url depth s =
     ((case requests_get E (trace s) url of
         None \<Rightarrow> None
       | Some response \<Rightarrow> if raise_for_status response then None else Some (response_text response)),
      s\<lparr>trace := trace s @ [Fetch url depth]\<rparr>)"

function scrape :: "env \<Rightarrow> WebScraper \<Rightarrow> string option \<Rightarrow> int \<Rightarrow> run \<Rightarrow> run"
  and scrape_links :: "env \<Rightarrow> WebScraper \<Rightarrow> string list \<Rightarrow> int \<Rightarrow> run \<Rightarrow> run" where
  "scrape E self url0 depth s =
     (case normalize_url E self (case url0 of None \<Rightarrow> base_url self | Some u \<Rightarrow> u) of
        Inl e \<Rightarrow> s\<lparr>raised := Some e\<rparr>
      | Inr url \<Rightarrow>
          if url \<in> visited_urls s \<or> depth > max_depth self then s
          else
            (case fetch_page E url depth (enter url s) of
               (None, s') \<Rightarrow> s'
             | (Some html, s') \<Rightarrow>
                 (case extract_markdown E html url of
                    Inl e \<Rightarrow> s'\<lparr>raised := Some e\<rparr>
                  | Inr md \<Rightarrow>
                      if depth < max_depth self then
                        (case get_internal_links E self (visited_urls s') html url of
                           Inl e \<Rightarrow> s'\<lparr>results := results s' @ [md], raised := Some e\<rparr>
                         | Inr internal_links \<Rightarrow>
                             scrape_links E self internal_links (depth + 1)
                               (s'\<lparr>results := results s' @ [md]\<rparr>))
                      else s'\<lparr>results := results s' @ [md]\<rparr>)))"
| "scrape_links E self [] depth s = s"
| "scrape_links E self (link # links) depth s =
     (let s' = scrape E self (Some link) depth s
      in if raised s' = None then scrape_links E self links depth s' else s')"
  by pat_completeness auto
termination
  by (relation "measures
        [\<lambda>x. case x of Inl (E, self, url0, depth, s) \<Rightarrow> nat (max_depth self + 1 - depth)
                      | Inr (E, self, links, depth, s) \<Rightarrow> nat (max_depth self + 1 - depth),
         \<lambda>x. case x of Inl (E, self, url0, depth, s) \<Rightarrow> 0
                      | Inr (E, self, links, depth, s) \<Rightarrow> Suc (length links)]")
     auto

declare scrape.simps [simp del]

section \<open>Reading a trace\<close>

text \<open>The URLs added to the visited set and the URLs fetched, in the order of the
  trace; the depths at which pages were fetched.\<close>

fun added :: "event list \<Rightarrow> string list" where
  "added [] = []"
| "added (Added u # t) = u # added t"
| "added (ev # t) = added t"

fun fetched :: "event list \<Rightarrow> string list" where
  "fetched [] = []"
| "fetched (Fetch u d # t) = u # fetched t"
| "fetched (ev # t) = fetched t"

fun fetch_depths :: "event list \<Rightarrow> int list" where
  "fetch_depths [] = []"
| "fetch_depths (Fetch u d # t) = d # fetch_depths t"
| "fetch_depths (ev # t) = fetch_depths t"

text \<open>\<open>added_first A t\<close>: every fetch of the trace \<open>t\<close> is for a URL that was added to the
  visited set earlier in \<open>t\<close>, or is in \<open>A\<close>, the set before \<open>t\<close>.\<close>

fun added_first :: "string set \<Rightarrow> event list \<Rightarrow> bool" where
  "added_first A [] = True"
| "added_first A (Added u # t) = added_first (insert u A) t"
| "added_first A (Fetch u d # t) = (u \<in> A \<and> added_first A t)"
| "added_first A (Sleep # t) = added_first A t"

text \<open>The state of a crawl keeps each URL once: no URL is added twice or fetched twice,
  a URL is in the visited set before it is fetched, and the visited set holds the
  URLs that were added.\<close>

definition visited_once :: "run \<Rightarrow> bool" where
  "visited_once s =
     (distinct (added (trace s)) \<and> distinct (fetched (trace s)) \<and>
      added_first {} (trace s) \<and> set (added (trace s)) = visited_urls s)"

text \<open>The invariant of the crawl behind \<open>visited_once\<close>: moreover every URL fetched so
  far is in the visited set.\<close>

definition crawl_inv :: "run \<Rightarrow> bool" where
  "crawl_inv s = (visited_once s \<and> set (fetched (trace s)) \<subseteq> visited_urls s)"

text \<open>The fetch of a page fails: there is no response (network error, timeout), or the
  response has a status code from 400 to 599.\<close>

definition fetch_failure :: "response option \<Rightarrow> bool" where
  "fetch_failure r =
     (case r of None \<Rightarrow> True | Some response \<Rightarrow> 400 \<le> status_code response \<and> status_code response < 600)"

text \<open>\<open>level_steps ds\<close>: each depth of the list is at most one more than the depth
  before it. So the last fetch before a fetch at the depth \<open>d\<close> that was made at a
  depth under \<open>d\<close> was made at the depth \<open>d - 1\<close>.\<close>

fun level_steps :: "int list \<Rightarrow> bool" where
  "level_steps (a # b # ds) = (b \<le> a + 1 \<and> level_steps (b # ds))"
| "level_steps ds = True"

text \<open>\<open>within_depth depth bound ds\<close>: the depths \<open>ds\<close> of the fetches that a call
  \<open>scrape(url, depth)\<close> makes are none at all, or else the first is \<open>depth\<close>, it is
  within the bound, all that follow are deeper than \<open>depth\<close> and within the bound, and
  the depths go down one level at a time. \<open>links_depth depth bound ds\<close>: the depths of
  the fetches that a loop over links submitted at \<open>depth\<close> makes.\<close>

definition within_depth :: "int \<Rightarrow> int \<Rightarrow> int list \<Rightarrow> bool" where
  "within_depth depth bound ds =
     (case ds of
        [] \<Rightarrow> True
      | d # ds' \<Rightarrow> d = depth \<and> depth \<le> bound \<and> list_all (\<lambda>d'. depth < d' \<and> d' \<le> bound) ds' \<and>
          level_steps ds)"

definition links_depth :: "int \<Rightarrow> int \<Rightarrow> int list \<Rightarrow> bool" where
  "links_depth depth bound ds =
     (list_all (\<lambda>d. depth \<le> d \<and> d \<le> bound) ds \<and> level_steps ds \<and> (ds = [] \<or> hd ds = depth))"

text \<open>An element passes the second guard of the loop of \<open>extract_markdown\<close>: it
  is not inside a \<open>pre\<close> or \<open>code\<close> element.\<close>

definition visible :: "element \<Rightarrow> bool" where
  "visible e = (\<not> has_parent e ''pre'' \<and> \<not> has_parent e ''code'')"

section \<open>The words of the content locator claim\<close>

text \<open>
  The content root as the specification words it, with nothing of \<open>find\<close>, \<open>selects\<close>
  or \<open>attr_search\<close> in it. \<open>first_tag e P\<close> is the first tag below \<open>e\<close>, in document
  order, that satisfies \<open>P\<close>. \<open>mentions key tokens n\<close>: the tag \<open>n\<close> has the attribute
  \<open>key\<close>, and the text of the attribute, case ignored, has one of the tokens as a
  substring. \<open>content_root\<close> goes through the levels in their priority: a \<open>main\<close>
  element, or rather the first \<open>div\<close> below it whose class mentions \<open>content\<close> if there
  is one; an \<open>article\<close>; a \<open>div\<close> whose class mentions a content token; a \<open>div\<close>
  whose id mentions a content token; a \<open>div\<close> whose class mentions a prose token; the
  body; the document.
\<close>

definition first_tag :: "element \<Rightarrow> (node \<Rightarrow> bool) \<Rightarrow> element option" where
  "first_tag e P = List.find (\<lambda>d. is_tag (snd d) \<and> P (snd d)) (descendants (fst e) (snd e))"

definition mentions :: "string \<Rightarrow> string list \<Rightarrow> node \<Rightarrow> bool" where
  "mentions key tokens n =
     (\<exists>v. map_of (attrs n) key = Some v \<and>
          (\<exists>token \<in> set tokens. \<exists>x y. lower v = x @ lower token @ y))"

definition content_root :: "element \<Rightarrow> element" where
  "content_root soup =
     (case first_tag soup (\<lambda>n. name n = ''main'') of
        Some main \<Rightarrow>
          (case first_tag main (\<lambda>n. name n = ''div'' \<and> mentions ''class'' [''content''] n) of
             Some content_div \<Rightarrow> content_div
           | None \<Rightarrow> main)
      | None \<Rightarrow>
     (case first_tag soup (\<lambda>n. name n = ''article'') of
        Some article \<Rightarrow> article
      | None \<Rightarrow>
     (case first_tag soup (\<lambda>n. name n = ''div'' \<and>
             mentions ''class'' [''content__default'', ''content'', ''main-content'',
                                 ''documentation'', ''docs-content''] n) of
        Some d \<Rightarrow> d
      | None \<Rightarrow>
     (case first_tag soup (\<lambda>n. name n = ''div'' \<and>
             mentions ''id'' [''content'', ''main'', ''documentation''] n) of
        Some d \<Rightarrow> d
      | None \<Rightarrow>
     (case first_tag soup (\<lambda>n. name n = ''div'' \<and>
             mentions ''class'' [''markdown'', ''prose'', ''post''] n) of
        Some d \<Rightarrow> d
      | None \<Rightarrow>
     (case first_tag soup (\<lambda>n. name n = ''body'') of
        Some body \<Rightarrow> body
      | None \<Rightarrow> soup))))))"

section \<open>The words of the table and code block claims\<close>

text \<open>
  The vocabulary in which the claims on tables and code blocks are stated, defined apart
  from the functions of the scraper: a pipe-delimited row; a row padded with empty cells
  or truncated to a width; the texts of the \<open>th\<close> cells of the header section of a
  table; the rows with cells that the table collects, from its first \<open>tbody\<close> or, when
  it has none, from the whole table; the raw text and the opening fence of a \<open>pre\<close>
  element; a text that ends with a newline.
\<close>

definition pipe_row :: "string list \<Rightarrow> string" where
  "pipe_row cells = ''| '' @ join '' | '' cells @ '' |'' @ [CHR 0x0A]"

definition fit :: "nat \<Rightarrow> string list \<Rightarrow> string list" where
  "fit n row = take n row @ replicate (n - length row) []"

definition header_cells :: "element \<Rightarrow> string list" where
  "header_cells table =
     (case find table (named [''thead'']) of
        Some thead \<Rightarrow> map (\<lambda>th. get_text_strip (snd th)) (find_all thead (named [''th'']))
      | None \<Rightarrow> [])"

definition body_rows :: "element \<Rightarrow> string list list" where
  "body_rows table =
     table_rows (case find table (named [''tbody'']) of Some tbody \<Rightarrow> tbody | None \<Rightarrow> table)"

definition code_text :: "element \<Rightarrow> string" where
  "code_text pre =
     (case find pre (named [''code'']) of Some code \<Rightarrow> get_text (snd code) | None \<Rightarrow> get_text (snd pre))"

definition opening_fence :: "element \<Rightarrow> string" where
  "opening_fence pre =
     [CHR 0x0A] @ ''```'' @
     (case find pre (named [''code'']) of
        Some code \<Rightarrow> get_code_language (snd code) | None \<Rightarrow> get_code_language (snd pre)) @
     [CHR 0x0A]"

definition ends_with_newline :: "string \<Rightarrow> bool" where
  "ends_with_newline s = (s \<noteq> [] \<and> last s = CHR 0x0A)"

section \<open>Example tables, code blocks and pages\<close>

definition cell :: "string \<Rightarrow> string \<Rightarrow> node" where
  "cell tag s = Tag tag [] [NavigableString s]"

definition tr :: "string \<Rightarrow> string list \<Rightarrow> node" where
  "tr tag cells = Tag ''tr'' [] (map (cell tag) cells)"

text \<open>The table of the specification: header row A, B in a header section, body rows
  1, 2 and 3.\<close>

definition table_of_spec :: element where
  "table_of_spec =
     ([''body'', ''html'', ''[document]''],
      Tag ''table'' []
        [Tag ''thead'' [] [tr ''th'' [''A'', ''B'']],
         Tag ''tbody'' [] [tr ''td'' [''1'', ''2''], tr ''td'' [''3'']]])"

text \<open>A header section whose cells are \<open>td\<close> cells, above a body of two rows.\<close>

definition table_td_head :: element where
  "table_td_head =
     ([''body'', ''html'', ''[document]''],
      Tag ''table'' []
        [Tag ''thead'' [] [tr ''td'' [''Name'', ''Age'']],
         Tag ''tbody'' [] [tr ''td'' [''Ann'', ''31''], tr ''td'' [''Bob'', ''27'']]])"

text \<open>A header section of two rows and no body section; a header section of one row
  followed by a row of data and no body section.\<close>

definition table_two_row_head :: element where
  "table_two_row_head =
     ([''body'', ''html'', ''[document]''],
      Tag ''table'' [] [Tag ''thead'' [] [tr ''th'' [''A''], tr ''th'' [''B'']]])"

definition table_no_tbody :: element where
  "table_no_tbody =
     ([''body'', ''html'', ''[document]''],
      Tag ''table'' [] [Tag ''thead'' [] [tr ''th'' [''A'', ''B'']], tr ''td'' [''1'', ''2'']])"

text \<open>An empty \<open>pre\<close> element, and one with a \<open>code\<close> child of class \<open>language-js\<close>
  whose text ends with a newline.\<close>

definition pre_empty :: element where
  "pre_empty = ([''body'', ''html'', ''[document]''], Tag ''pre'' [] [])"

definition pre_js :: element where
  "pre_js =
     ([''body'', ''html'', ''[document]''],
      Tag ''pre'' [] [Tag ''code'' [(''class'', ''hl language-js'')] [NavigableString (''a = 1'' @ [CHR 0x0A])]])"

text \<open>A page with a \<open>div\<close> of id \<open>content\<close>, then a \<open>main\<close> without a content
  \<open>div\<close>, then a \<open>main\<close> with one, then an \<open>article\<close>; and a document with no
  \<open>body\<close>.\<close>

definition page_two_mains :: node where
  "page_two_mains =
     Tag ''[document]'' []
       [Tag ''html'' []
          [Tag ''body'' []
             [Tag ''div'' [(''id'', ''content'')] [NavigableString ''side''],
              Tag ''main'' [(''id'', ''first'')] [Tag ''p'' [] [NavigableString ''one'']],
              Tag ''main'' [(''id'', ''second'')]
                [Tag ''div'' [(''class'', ''page-Content'')] [NavigableString ''two'']],
              Tag ''article'' [] [NavigableString ''three'']]]]"

definition page_bare :: node where
  "page_bare = Tag ''[document]'' [] [Tag ''p'' [] [NavigableString ''bare'']]"

text \<open>One page for each level of the content locator, each with a second candidate
  after the first, and with a candidate of a lower level before it: a \<open>main\<close> with
  content \<open>div\<close>s, the first of them not a child; two \<open>article\<close>s after a content
  \<open>div\<close>; \<open>div\<close>s matched by class after one matched by id; \<open>div\<close>s matched by id
  after one matched by a prose class; \<open>div\<close>s matched by a prose class; a body with
  nothing of all that.\<close>

definition html_page :: "node list \<Rightarrow> node" where
  "html_page kids = Tag ''[document]'' [] [Tag ''html'' [] [Tag ''body'' [] kids]]"

definition page_main_div :: node where
  "page_main_div =
     html_page
       [Tag ''main'' []
          [Tag ''p'' [] [NavigableString ''intro''],
           Tag ''div'' [(''class'', ''wrap'')]
             [Tag ''div'' [(''class'', ''Page-CONTENT wide'')] [NavigableString ''A'']],
           Tag ''div'' [(''class'', ''content'')] [NavigableString ''B'']]]"

definition page_article :: node where
  "page_article =
     html_page
       [Tag ''div'' [(''class'', ''content'')] [NavigableString ''side''],
        Tag ''article'' [] [NavigableString ''A''],
        Tag ''article'' [] [NavigableString ''B'']]"

definition page_div_class :: node where
  "page_div_class =
     html_page
       [Tag ''div'' [(''id'', ''main'')] [NavigableString ''by id''],
        Tag ''div'' [(''class'', ''sidebar'')] [NavigableString ''side''],
        Tag ''div'' [(''class'', ''wide  My-Documentation-v2'')] [NavigableString ''A''],
        Tag ''div'' [(''class'', ''content'')] [NavigableString ''B'']]"

definition page_div_id :: node where
  "page_div_id =
     html_page
       [Tag ''div'' [(''class'', ''prose'')] [NavigableString ''by class''],
        Tag ''div'' [(''id'', ''page-Main'')] [NavigableString ''A''],
        Tag ''div'' [(''id'', ''content'')] [NavigableString ''B'']]"

definition page_div_prose :: node where
  "page_div_prose =
     html_page
       [Tag ''div'' [(''class'', ''box'')] [NavigableString ''side''],
        Tag ''div'' [(''class'', ''wide Blog-Posts'')] [NavigableString ''A''],
        Tag ''div'' [(''class'', ''markdown'')] [NavigableString ''B'']]"

definition page_plain :: node where
  "page_plain = html_page [Tag ''div'' [(''class'', ''box'')] [NavigableString ''A'']]"

text \<open>A page whose body is a list of two items, the first of which holds a nested
  list of two items; the elements of the outer list, of its first item, of the nested
  list and of the first nested item.\<close>

definition nested_ul :: node where
  "nested_ul =
     Tag ''ul'' [] [Tag ''li'' [] [NavigableString ''apple''], Tag ''li'' [] [NavigableString ''pear'']]"

definition outer_ul :: node where
  "outer_ul =
     Tag ''ul'' []
       [Tag ''li'' [] [NavigableString ''Fruit '', nested_ul], Tag ''li'' [] [NavigableString ''Bread'']]"

definition page_nested :: node where
  "page_nested = Tag ''[document]'' [] [Tag ''html'' [] [Tag ''body'' [] [outer_ul]]]"

definition outer_elem :: element where
  "outer_elem = ([''body'', ''html'', ''[document]''], outer_ul)"

definition li_elem :: element where
  "li_elem =
     ([''ul'', ''body'', ''html'', ''[document]''],
      Tag ''li'' [] [NavigableString ''Fruit '', nested_ul])"

definition inner_elem :: element where
  "inner_elem = ([''li'', ''ul'', ''body'', ''html'', ''[document]''], nested_ul)"

definition item_elem :: element where
  "item_elem =
     ([''ul'', ''li'', ''ul'', ''body'', ''html'', ''[document]''],
      Tag ''li'' [] [NavigableString ''apple''])"

text \<open>Two pages that hold the same list outside the content root: in a \<open>div\<close> beside
  the \<open>main\<close> element, and in a \<open>nav\<close> element. The elements of the list in the first
  page.\<close>

definition page_sidebar :: node where
  "page_sidebar =
     Tag ''[document]'' []
       [Tag ''html'' []
          [Tag ''body'' []
             [Tag ''div'' [(''class'', ''sidebar'')] [outer_ul],
              Tag ''main'' [] [Tag ''p'' [] [NavigableString ''Intro'']]]]]"

definition page_nav :: node where
  "page_nav =
     Tag ''[document]'' []
       [Tag ''html'' []
          [Tag ''body'' [] [Tag ''nav'' [] [outer_ul], Tag ''p'' [] [NavigableString ''Intro'']]]]"

definition side_outer :: element where
  "side_outer = ([''div'', ''body'', ''html'', ''[document]''], outer_ul)"

definition side_li :: element where
  "side_li =
     ([''ul'', ''div'', ''body'', ''html'', ''[document]''],
      Tag ''li'' [] [NavigableString ''Fruit '', nested_ul])"

definition side_inner :: element where
  "side_inner = ([''li'', ''ul'', ''div'', ''body'', ''html'', ''[document]''], nested_ul)"

definition side_item :: element where
  "side_item =
     ([''ul'', ''li'', ''ul'', ''div'', ''body'', ''html'', ''[document]''],
      Tag ''li'' [] [NavigableString ''apple''])"

section \<open>An example site\<close>

text \<open>
  A site of four pages for the concrete runs below. The start page links to \<open>/bb\<close>
  and to \<open>/a\<close> (twice, once with a trailing slash); \<open>/a\<close> links to \<open>/bb\<close>, back to the
  start page, to itself with a fragment, and to \<open>/ccc\<close>, which answers with the status
  404 and an error page that links to \<open>/dd\<close>; \<open>/bb\<close> has no links; for every other
  URL there is no connection. The hash of a URL is its length, so the links of a page
  are followed from the shortest to the longest.
\<close>

definition page :: "string \<Rightarrow> string list \<Rightarrow> node" where
  "page title hrefs =
     Tag ''[document]'' []
       [Tag ''html'' []
          [Tag ''head'' [] [Tag ''title'' [] [NavigableString title]],
           Tag ''body'' []
             (Tag ''h1'' [] [NavigableString title] #
              map (\<lambda>h. Tag ''a'' [(''href'', h)] [NavigableString h]) hrefs)]]"

definition example_web :: env where
  "example_web =
     \<lparr>check_bracketed_host = (\<lambda>h. False),
      requests_get = (\<lambda>t u.
        if u = ''http://example.com'' then Some (Response 200 (page ''Start'' [''/bb'', ''/a'', ''/a/'']))
        else if u = ''http://example.com/a'' then
          Some (Response 200 (page ''A'' [''/bb'', ''/'', ''/a#top'', ''/ccc'']))
        else if u = ''http://example.com/bb'' then Some (Response 200 (page ''B'' []))
        else if u = ''http://example.com/ccc'' then Some (Response 404 (page ''Not Found'' [''/dd'']))
        else None),
      hash_key = length\<rparr>"

definition example_site :: WebScraper where
  "example_site = \<lparr>base_url = ''http://example.com'', max_depth = 2, base_domain = ''example.com''\<rparr>"

text \<open>The Markdown of the page \<open>page ''Start'' hrefs\<close> fetched from the start URL.\<close>

definition start_md :: string where
  "start_md = ''# Start'' @ [CHR 0x0A, CHR 0x0A] @ ''**URL:** http://example.com'' @ [CHR 0x0A, CHR 0x0A] @
              ''---'' @ [CHR 0x0A, CHR 0x0A] @ ''# Start'' @ [CHR 0x0A]"

text \<open>
  A second site: the start page answers with the status 300 (Multiple Choices, with no
  \<open>Location\<close> header, so that there is nothing to follow) and a body that links to
  \<open>/bb\<close>.
\<close>

definition choices_web :: env where
  "choices_web =
     \<lparr>check_bracketed_host = (\<lambda>h. False),
      requests_get = (\<lambda>t u.
        if u = ''http://example.com'' then Some (Response 300 (page ''Choices'' [''/bb'']))
        else if u = ''http://example.com/bb'' then Some (Response 200 (page ''B'' []))
        else None),
      hash_key = length\<rparr>"

text \<open>
  A third site: the one page has a link that \<open>urljoin\<close> refuses with \<open>ValueError\<close>, a
  host with an opening bracket and no closing one.
\<close>

definition broken_link_web :: env where
  "broken_link_web =
     \<lparr>check_bracketed_host = (\<lambda>h. False),
      requests_get = (\<lambda>t u.
        if u = ''http://example.com'' then Some (Response 200 (page ''Start'' [''http://['']))
        else None),
      hash_key = length\<rparr>"

section \<open>The content locator finds a root\<close>

subsection \<open>What is found lies in the document\<close>

lemma descendants_trans:
  "(a, m) \<in> set (descendants anc n) \<Longrightarrow> set (descendants a m) \<subseteq> set (descendants anc n)"
proof (induction anc n rule: descendants.induct)
  case (1 anc nm as kids)
  then show ?case by auto
qed simp_all

lemma find_in_descendants:
  "find e p = Some d \<Longrightarrow> d \<in> set (descendants (fst e) (snd e))"
proof -
  assume "find e p = Some d"
  then have "d \<in> set (find_all e p)"
    by (auto simp: find_def split: list.splits)
  then show ?thesis by (simp add: find_all_def)
qed

lemma find_find_in_descendants:
  assumes "find e p = Some m" "find m q = Some d"
  shows "d \<in> set (descendants (fst e) (snd e))"
proof -
  have "m \<in> set (descendants (fst e) (snd e))" using assms(1) by (rule find_in_descendants)
  then have "set (descendants (fst m) (snd m)) \<subseteq> set (descendants (fst e) (snd e))"
    using descendants_trans[of "fst m" "snd m"] by simp
  with find_in_descendants[OF assms(2)] show ?thesis by blast
qed

subsection \<open>The first match in document order\<close>

lemma find_first_tag: "find e p = first_tag e p"
proof -
  have "(case filter Q xs of [] \<Rightarrow> None | d # ds \<Rightarrow> Some d) = List.find Q xs" for Q and xs :: "element list"
    by (induction xs) auto
  then show ?thesis by (simp add: find_def find_all_def first_tag_def)
qed

subsection \<open>Substrings of an attribute\<close>

lemma contains_iff: "contains p s \<longleftrightarrow> (\<exists>x y. s = x @ p @ y)"
proof (induction s)
  case Nil
  then show ?case by auto
next
  case (Cons c cs)
  have pre: "take (length p) (c # cs) = p \<longleftrightarrow> (\<exists>y. c # cs = p @ y)"
    by (metis append_eq_conv_conj)
  have "(\<exists>x y. c # cs = x @ p @ y) \<longleftrightarrow> (\<exists>y. c # cs = p @ y) \<or> (\<exists>x y. cs = x @ p @ y)"
  proof
    assume "\<exists>x y. c # cs = x @ p @ y"
    then obtain x y where xy: "c # cs = x @ p @ y" by blast
    show "(\<exists>y. c # cs = p @ y) \<or> (\<exists>x y. cs = x @ p @ y)"
    proof (cases x)
      case Nil
      then show ?thesis using xy by auto
    next
      case (Cons a x')
      then show ?thesis using xy by auto
    qed
  next
    assume "(\<exists>y. c # cs = p @ y) \<or> (\<exists>x y. cs = x @ p @ y)"
    then show "\<exists>x y. c # cs = x @ p @ y"
    proof
      assume "\<exists>y. c # cs = p @ y"
      then obtain y where "c # cs = [] @ p @ y" by auto
      then show ?thesis by blast
    next
      assume "\<exists>x y. cs = x @ p @ y"
      then obtain x y where "c # cs = (c # x) @ p @ y" by auto
      then show ?thesis by blast
    qed
  qed
  then show ?case using Cons pre by simp
qed

lemma contains_across:
  assumes "c \<notin> set p"
  shows "contains p (xs @ c # ys) \<longleftrightarrow> contains p xs \<or> contains p ys"
proof (induction xs)
  case Nil
  have "take (length p) (c # ys) = p \<longleftrightarrow> p = []"
  proof (cases p)
    case Nil
    then show ?thesis by simp
  next
    case (Cons a p')
    then show ?thesis using assms by auto
  qed
  then show ?case by auto
next
  case (Cons x xs)
  have "take (length p) (x # xs @ c # ys) = p \<longleftrightarrow> take (length p) (x # xs) = p"
  proof (cases "length p \<le> length (x # xs)")
    case True
    then show ?thesis by (simp del: take_Suc_Cons add: take_Cons')
  next
    case False
    define k where "k = length p - length (x # xs) - 1"
    have k: "length p = length (x # xs) + Suc k"
      using False by (simp add: k_def)
    have "take (length p) ((x # xs) @ c # ys) = (x # xs) @ c # take k ys"
      unfolding k by (simp del: append_Cons)
    then have "c \<in> set (take (length p) (x # xs @ c # ys))"
      by simp
    then have "take (length p) (x # xs @ c # ys) \<noteq> p" using assms by auto
    moreover have "length (take (length p) (x # xs)) \<noteq> length p" using False by simp
    then have "take (length p) (x # xs) \<noteq> p" by metis
    ultimately show ?thesis by simp
  qed
  then show ?case using Cons by auto
qed

lemma isspace_lower_char: "isspace c \<Longrightarrow> lower_char c = c"
proof -
  have "\<forall>c \<in> set whitespace. lower_char c = c"
    by code_simp
  then show "isspace c \<Longrightarrow> lower_char c = c"
    by (simp add: isspace_def)
qed

lemma lower_append: "lower (a @ b) = lower a @ lower b"
  by (simp add: lower_def)

lemma words_contains:
  assumes "p \<noteq> []" "\<forall>c \<in> set p. \<not> isspace c"
  shows "(\<exists>w \<in> set (words_from acc v). contains p (lower w)) \<longleftrightarrow> contains p (lower (acc @ v))"
proof (induction v arbitrary: acc)
  case Nil
  then show ?case using assms(1) by (auto simp: lower_def)
next
  case (Cons c cs)
  show ?case
  proof (cases "isspace c")
    case True
    then have "c \<notin> set p" using assms(2) by auto
    then have split: "contains p (lower acc @ c # lower cs) \<longleftrightarrow>
        contains p (lower acc) \<or> contains p (lower cs)"
      by (rule contains_across)
    have low: "lower (acc @ c # cs) = lower acc @ c # lower cs"
      using isspace_lower_char[OF True] by (simp add: lower_def)
    have empty: "\<not> contains p (lower [])" using assms(1) by (simp add: lower_def)
    show ?thesis
      using True Cons[of "[]"] split empty unfolding low
      by (cases "acc = []") auto
  next
    case False
    then show ?thesis using Cons[of "acc @ [c]"] by simp
  qed
qed

lemma join_contains:
  assumes "p \<noteq> []" "CHR '' '' \<notin> set p"
  shows "contains p (lower (join '' '' ws)) \<longleftrightarrow> (\<exists>w \<in> set ws. contains p (lower w))"
proof (induction "'' ''" ws rule: join.induct)
  case 1
  then show ?case using assms(1) by (simp add: lower_def)
next
  case (2 x)
  then show ?case by simp
next
  case (3 x y ys)
  have sp: "lower '' '' = '' ''" by code_simp
  have "lower (join '' '' (x # y # ys)) = lower x @ CHR '' '' # lower (join '' '' (y # ys))"
    using sp by (simp add: lower_def)
  then show ?case using 3 contains_across[OF assms(2)] by auto
qed

lemma re_search_iff:
  "re_search alts s \<longleftrightarrow> (\<exists>token \<in> set alts. \<exists>x y. lower s = x @ lower token @ y)"
  by (simp add: re_search_def list_ex_iff contains_iff)

text \<open>\<open>mentions\<close> in a form that can be run.\<close>

lemma mentions_code [code]:
  "mentions key tokens n =
     (case map_of (attrs n) key of
        None \<Rightarrow> False
      | Some v \<Rightarrow> list_ex (\<lambda>token. contains (lower token) (lower v)) tokens)"
  by (simp add: mentions_def list_ex_iff contains_iff split: option.splits)

lemma attr_search_id:
  "key \<noteq> ''class'' \<Longrightarrow> attr_search key alts n = mentions key alts n"
  by (auto simp: attr_search_def mentions_def re_search_iff split: option.splits)

lemma attr_search_class:
  assumes "\<forall>a \<in> set alts. lower a \<noteq> [] \<and> (\<forall>c \<in> set (lower a). \<not> isspace c)"
  shows "attr_search ''class'' alts n = mentions ''class'' alts n"
proof (cases "map_of (attrs n) ''class''")
  case None
  then show ?thesis by (simp add: attr_search_def mentions_def)
next
  case (Some v)
  have sp: "isspace CHR '' ''" by (simp add: isspace_def whitespace_def)
  have tok: "(\<exists>w \<in> set (words_from [] v). contains (lower a) (lower w)) \<longleftrightarrow> contains (lower a) (lower v)"
    if "a \<in> set alts" for a
    using words_contains[of "lower a" "[]" v] assms that by auto
  have joined: "contains (lower a) (lower (join '' '' (words_from [] v))) \<longleftrightarrow> contains (lower a) (lower v)"
    if "a \<in> set alts" for a
  proof -
    have "CHR '' '' \<notin> set (lower a)" using assms that sp by auto
    then show ?thesis using join_contains[of "lower a" "words_from [] v"] tok[OF that] assms that
      by auto
  qed
  have "attr_search ''class'' alts n \<longleftrightarrow> (\<exists>a \<in> set alts. contains (lower a) (lower v))"
    using Some tok joined
    by (auto simp: attr_search_def class_tokens_def re_search_def list_ex_iff)
  also have "\<dots> \<longleftrightarrow> mentions ''class'' alts n"
    using Some by (simp add: mentions_def contains_iff)
  finally show ?thesis .
qed



subsection \<open>The locator and the priority chain\<close>

lemma find_first:
  "List.find Q xs = Some d \<longleftrightarrow>
     (\<exists>before after. xs = before @ d # after \<and> Q d \<and> (\<forall>x \<in> set before. \<not> Q x))"
proof (induction xs)
  case Nil
  then show ?case by simp
next
  case (Cons a xs)
  show ?case
  proof (cases "Q a")
    case True
    have "(\<exists>before after. a # xs = before @ d # after \<and> Q d \<and> (\<forall>x \<in> set before. \<not> Q x)) \<longleftrightarrow> a = d"
    proof
      assume "\<exists>before after. a # xs = before @ d # after \<and> Q d \<and> (\<forall>x \<in> set before. \<not> Q x)"
      then obtain before after where *: "a # xs = before @ d # after" "\<forall>x \<in> set before. \<not> Q x"
        by blast
      show "a = d"
      proof (cases before)
        case Nil
        then show ?thesis using * by simp
      next
        case (Cons b bs)
        then show ?thesis using * True by auto
      qed
    next
      assume "a = d"
      then have "a # xs = [] @ d # xs \<and> Q d \<and> (\<forall>x \<in> set []. \<not> Q x)" using True by simp
      then show "\<exists>before after. a # xs = before @ d # after \<and> Q d \<and> (\<forall>x \<in> set before. \<not> Q x)"
        by blast
    qed
    then show ?thesis using True by simp
  next
    case False
    have "(\<exists>before after. a # xs = before @ d # after \<and> Q d \<and> (\<forall>x \<in> set before. \<not> Q x)) \<longleftrightarrow>
          (\<exists>before after. xs = before @ d # after \<and> Q d \<and> (\<forall>x \<in> set before. \<not> Q x))"
    proof
      assume "\<exists>before after. a # xs = before @ d # after \<and> Q d \<and> (\<forall>x \<in> set before. \<not> Q x)"
      then obtain before after where *: "a # xs = before @ d # after" "Q d" "\<forall>x \<in> set before. \<not> Q x"
        by blast
      show "\<exists>before after. xs = before @ d # after \<and> Q d \<and> (\<forall>x \<in> set before. \<not> Q x)"
      proof (cases before)
        case Nil
        then show ?thesis using * False by simp
      next
        case (Cons b bs)
        then have "xs = bs @ d # after \<and> Q d \<and> (\<forall>x \<in> set bs. \<not> Q x)" using * by simp
        then show ?thesis by blast
      qed
    next
      assume "\<exists>before after. xs = before @ d # after \<and> Q d \<and> (\<forall>x \<in> set before. \<not> Q x)"
      then obtain before after where *: "xs = before @ d # after" "Q d" "\<forall>x \<in> set before. \<not> Q x"
        by blast
      then have "a # xs = (a # before) @ d # after \<and> Q d \<and> (\<forall>x \<in> set (a # before). \<not> Q x)"
        using False by simp
      then show "\<exists>before after. a # xs = before @ d # after \<and> Q d \<and> (\<forall>x \<in> set before. \<not> Q x)"
        by blast
    qed
    then show ?thesis using False Cons by simp
  qed
qed

lemma first_tag_first:
  "first_tag e P = Some d \<longleftrightarrow>
     (\<exists>before after. descendants (fst e) (snd e) = before @ d # after \<and>
        (is_tag (snd d) \<and> P (snd d)) \<and> (\<forall>x \<in> set before. \<not> (is_tag (snd x) \<and> P (snd x))))"
  unfolding first_tag_def by (rule find_first)

lemma find_content_container_content_root:
  "find_content_container soup = content_root soup"
proof -
  have tokens: "\<forall>a \<in> set [''content'']. lower a \<noteq> [] \<and> (\<forall>c \<in> set (lower a). \<not> isspace c)"
    "\<forall>a \<in> set [''content__default'', ''content'', ''main-content'', ''documentation'', ''docs-content''].
       lower a \<noteq> [] \<and> (\<forall>c \<in> set (lower a). \<not> isspace c)"
    "\<forall>a \<in> set [''markdown'', ''prose'', ''post'']. lower a \<noteq> [] \<and> (\<forall>c \<in> set (lower a). \<not> isspace c)"
    by code_simp+
  have s1: "selects (tag, None) = (\<lambda>n. name n = tag)" for tag
    by (rule ext) (simp add: selects_def)
  have s2: "selects (''div'', Some (''class'', alts)) = (\<lambda>n. name n = ''div'' \<and> mentions ''class'' alts n)"
    if "\<forall>a \<in> set alts. lower a \<noteq> [] \<and> (\<forall>c \<in> set (lower a). \<not> isspace c)" for alts
    by (rule ext) (simp add: selects_def attr_search_class[OF that])
  have s3: "selects (''div'', Some (''id'', alts)) = (\<lambda>n. name n = ''div'' \<and> mentions ''id'' alts n)" for alts
    by (rule ext) (simp add: selects_def attr_search_id)
  have s4: "named [''body''] = (\<lambda>n. name n = ''body'')"
    by (rule ext) (simp add: named_def)
  show ?thesis
    unfolding find_content_container_def selectors_def content_root_def
    by (simp add: find_first_tag s1 s2[OF tokens(1)] s2[OF tokens(2)] s2[OF tokens(3)] s3 s4
             split: option.splits)
qed

lemma find_content_container_within:
  "find_content_container soup = soup \<or>
   find_content_container soup \<in> set (descendants (fst soup) (snd soup))"
proof -
  have "find_content_container soup =
     (case find soup (selects (''main'', None)) of
        Some main \<Rightarrow>
          (case find main (selects (''div'', Some (''class'', [''content'']))) of
             Some content_div \<Rightarrow> content_div
           | None \<Rightarrow> main)
      | None \<Rightarrow>
     (case find soup (selects (''article'', None)) of
        Some article \<Rightarrow> article
      | None \<Rightarrow>
     (case find soup (selects (''div'', Some (''class'',
             [''content__default'', ''content'', ''main-content'', ''documentation'', ''docs-content'']))) of
        Some d \<Rightarrow> d
      | None \<Rightarrow>
     (case find soup (selects (''div'', Some (''id'', [''content'', ''main'', ''documentation'']))) of
        Some d \<Rightarrow> d
      | None \<Rightarrow>
     (case find soup (selects (''div'', Some (''class'', [''markdown'', ''prose'', ''post'']))) of
        Some d \<Rightarrow> d
      | None \<Rightarrow>
     (case find soup (named [''body'']) of
        Some body \<Rightarrow> body
      | None \<Rightarrow> soup))))))"
    by (simp add: find_content_container_def selectors_def split: option.splits)
  then show ?thesis
    by (auto split: option.splits dest: find_in_descendants find_find_in_descendants)
qed

text \<open>
  C5. The content locator returns the content root of the specification: the first
  \<open>main\<close> in document order (or, if there is one, the first \<open>div\<close> below it whose class
  mentions \<open>content\<close>); else the first \<open>article\<close>; else the first \<open>div\<close> whose class
  mentions one of the content tokens; else the first \<open>div\<close> whose id mentions
  \<open>content\<close>, \<open>main\<close> or \<open>documentation\<close>; else the first \<open>div\<close> whose class mentions
  \<open>markdown\<close>, \<open>prose\<close> or \<open>post\<close>; else the body; else the document. A level is
  decided by its first tag in document order and by nothing after it, and a token is
  mentioned when the text of the attribute, case ignored, has it as a substring. The
  result is always an element: the document or one of its descendants.
\<close>

theorem find_content_container_priority:
  "find_content_container soup = content_root soup \<and>
   (find_content_container soup = soup \<or>
    find_content_container soup \<in> set (descendants (fst soup) (snd soup)))"
  using find_content_container_content_root find_content_container_within by (rule conjI)

text \<open>One page for each level. On the page with two \<open>main\<close> elements the root is the
  first \<open>main\<close>: it outranks the \<open>div\<close> that comes before it, and the content \<open>div\<close>
  of the second \<open>main\<close> is not looked for. Below a \<open>main\<close> the first content \<open>div\<close>
  in document order is taken, a grandchild before a later child. A class or an id
  matches in any case of its letters, anywhere in its text. A document without \<open>body\<close>
  is its own root.\<close>

theorem find_content_container_example:
  "content_root ([], page_two_mains) =
     ([''body'', ''html'', ''[document]''],
      Tag ''main'' [(''id'', ''first'')] [Tag ''p'' [] [NavigableString ''one'']]) \<and>
   content_root ([], page_main_div) =
     ([''div'', ''main'', ''body'', ''html'', ''[document]''],
      Tag ''div'' [(''class'', ''Page-CONTENT wide'')] [NavigableString ''A'']) \<and>
   content_root ([], page_article) =
     ([''body'', ''html'', ''[document]''], Tag ''article'' [] [NavigableString ''A'']) \<and>
   content_root ([], page_div_class) =
     ([''body'', ''html'', ''[document]''],
      Tag ''div'' [(''class'', ''wide  My-Documentation-v2'')] [NavigableString ''A'']) \<and>
   content_root ([], page_div_id) =
     ([''body'', ''html'', ''[document]''], Tag ''div'' [(''id'', ''page-Main'')] [NavigableString ''A'']) \<and>
   content_root ([], page_div_prose) =
     ([''body'', ''html'', ''[document]''],
      Tag ''div'' [(''class'', ''wide Blog-Posts'')] [NavigableString ''A'']) \<and>
   content_root ([], page_plain) =
     ([''html'', ''[document]''],
      Tag ''body'' [] [Tag ''div'' [(''class'', ''box'')] [NavigableString ''A'']]) \<and>
   content_root ([], page_bare) = ([], page_bare) \<and>
   find_content_container ([], page_two_mains) = content_root ([], page_two_mains) \<and>
   find_content_container ([], page_div_class) = content_root ([], page_div_class)"
proof -
  have code: "find_content_container ([], page_two_mains) =
     ([''body'', ''html'', ''[document]''],
      Tag ''main'' [(''id'', ''first'')] [Tag ''p'' [] [NavigableString ''one'']])"
   "find_content_container ([], page_main_div) =
     ([''div'', ''main'', ''body'', ''html'', ''[document]''],
      Tag ''div'' [(''class'', ''Page-CONTENT wide'')] [NavigableString ''A''])"
   "find_content_container ([], page_article) =
     ([''body'', ''html'', ''[document]''], Tag ''article'' [] [NavigableString ''A''])"
   "find_content_container ([], page_div_class) =
     ([''body'', ''html'', ''[document]''],
      Tag ''div'' [(''class'', ''wide  My-Documentation-v2'')] [NavigableString ''A''])"
   "find_content_container ([], page_div_id) =
     ([''body'', ''html'', ''[document]''], Tag ''div'' [(''id'', ''page-Main'')] [NavigableString ''A''])"
   "find_content_container ([], page_div_prose) =
     ([''body'', ''html'', ''[document]''],
      Tag ''div'' [(''class'', ''wide Blog-Posts'')] [NavigableString ''A''])"
   "find_content_container ([], page_plain) =
     ([''html'', ''[document]''],
      Tag ''body'' [] [Tag ''div'' [(''class'', ''box'')] [NavigableString ''A'']])"
   "find_content_container ([], page_bare) = ([], page_bare)"
    by code_simp+
  note spec = find_content_container_priority[THEN conjunct1, symmetric]
  show ?thesis
    unfolding spec[of "([], page_two_mains)"] spec[of "([], page_main_div)"]
      spec[of "([], page_article)"] spec[of "([], page_div_class)"] spec[of "([], page_div_id)"]
      spec[of "([], page_div_prose)"] spec[of "([], page_plain)"] spec[of "([], page_bare)"]
    using code by simp
qed

section \<open>The crawl visits each URL once\<close>

lemma added_append [simp]: "added (t @ t') = added t @ added t'"
  by (induction t rule: added.induct) auto

lemma fetched_append [simp]: "fetched (t @ t') = fetched t @ fetched t'"
  by (induction t rule: fetched.induct) auto

lemma fetch_depths_append [simp]: "fetch_depths (t @ t') = fetch_depths t @ fetch_depths t'"
  by (induction t rule: fetch_depths.induct) auto

lemma added_first_append [simp]:
  "added_first A (t @ t') = (added_first A t \<and> added_first (A \<union> set (added t)) t')"
  by (induction A t rule: added_first.induct) auto

text \<open>
  Whatever holds of the state before a call of \<open>scrape\<close> holds after it, provided that
  it survives the three ways in which the crawl changes the state: the step from the
  guard to the fetch of a URL not yet visited at a depth within the bound, a new list of
  results, and an exception.
\<close>

lemma scrape_invariant:
  assumes "\<And>s url depth. I s \<Longrightarrow> url \<notin> visited_urls s \<Longrightarrow> depth \<le> max_depth self \<Longrightarrow>
             I (snd (fetch_page E url depth (enter url s)))"
    and "\<And>s r. I s \<Longrightarrow> I (s\<lparr>results := r\<rparr>)"
    and "\<And>s e. I s \<Longrightarrow> I (s\<lparr>raised := e\<rparr>)"
  shows "I s \<Longrightarrow> I (scrape E self url0 depth s)"
    and "I s \<Longrightarrow> I (scrape_links E self links depth s)"
  using assms
proof (induction E self url0 depth s and E self links depth s rule: scrape_scrape_links.induct)
  case (1 E self url0 depth s)
  define u0 where "u0 = (case url0 of None \<Rightarrow> base_url self | Some u \<Rightarrow> u)"
  show ?case
  proof (cases "normalize_url E self u0")
    case (Inl e)
    then show ?thesis using "1.prems" by (subst scrape.simps) (simp add: u0_def)
  next
    case (Inr url)
    show ?thesis
    proof (cases "url \<in> visited_urls s \<or> max_depth self < depth")
      case True
      then show ?thesis using Inr "1.prems"(1) by (subst scrape.simps) (auto simp: u0_def)
    next
      case guard: False
      obtain r s' where f: "fetch_page E url depth (enter url s) = (r, s')"
        by (cases "fetch_page E url depth (enter url s)") auto
      from guard "1.prems"(1) have I': "I s'"
        using "1.prems"(2)[of s url depth] f by auto
      show ?thesis
      proof (cases r)
        case None
        then show ?thesis using Inr guard f I' by (subst scrape.simps) (auto simp: u0_def)
      next
        case (Some html)
        show ?thesis
        proof (cases "extract_markdown E html url")
          case (Inl e)
          then show ?thesis using Inr guard f I' Some "1.prems"(4)
            by (subst scrape.simps) (auto simp: u0_def)
        next
          case md: (Inr md)
          show ?thesis
          proof (cases "depth < max_depth self")
            case False
            then show ?thesis using Inr guard f I' Some md "1.prems"(3)
              by (subst scrape.simps) (auto simp: u0_def)
          next
            case True
            show ?thesis
            proof (cases "get_internal_links E self (visited_urls s') html url")
              case (Inl e)
              then show ?thesis
                using Inr guard f I' Some md True "1.prems"(3,4)
                by (subst scrape.simps) (auto simp: u0_def)
            next
              case links: (Inr links)
              have "I (scrape_links E self links (depth + 1) (s'\<lparr>results := results s' @ [md]\<rparr>))"
                using "1.IH"[OF Inr[unfolded u0_def] guard f[symmetric] Some md True links]
                  I' "1.prems"(2,3,4)
                by blast
              then show ?thesis
                using Inr guard f Some md True links
                by (subst scrape.simps) (auto simp: u0_def)
            qed
          qed
        qed
      qed
    qed
  qed
next
  case (2 E self depth s)
  then show ?case by simp
next
  case (3 E self link links depth s)
  have a: "I (scrape E self (Some link) depth s)"
    using "3.IH"(1) "3.prems" by blast
  show ?case
  proof (cases "raised (scrape E self (Some link) depth s) = None")
    case True
    then show ?thesis using "3.IH"(2)[OF refl True a] "3.prems" by (simp add: Let_def)
  next
    case False
    then show ?thesis using a by (auto simp add: Let_def)
  qed
qed

lemma crawl_inv_fetch:
  assumes "crawl_inv s" "url \<notin> visited_urls s"
  shows "crawl_inv (snd (fetch_page E url depth (enter url s)))"
  using assms by (auto simp: crawl_inv_def visited_once_def fetch_page_def enter_def Let_def)

lemma crawl_inv_start: "crawl_inv start"
  by (simp add: crawl_inv_def visited_once_def start_def)

lemma crawl_inv_results: "crawl_inv (s\<lparr>results := r\<rparr>) = crawl_inv s"
  by (simp add: crawl_inv_def visited_once_def)

lemma crawl_inv_raised: "crawl_inv (s\<lparr>raised := e\<rparr>) = crawl_inv s"
  by (simp add: crawl_inv_def visited_once_def)

lemma crawl_inv_scrape: "crawl_inv s \<Longrightarrow> crawl_inv (scrape E self url depth s)"
  by (rule scrape_invariant(1)[where I = crawl_inv])
     (simp_all add: crawl_inv_fetch crawl_inv_results crawl_inv_raised)

text \<open>
  C1. In every crawl, from the fresh state, with any seed, any depth, any network and
  any iteration order of the link sets: \<open>visited_urls.add\<close> is called at most once for
  a URL, \<open>fetch_page\<close> is called at most once for a URL, every fetch of a URL comes
  after its addition to the visited set, and the visited set holds the URLs added.
\<close>

theorem scrape_visited_once: "visited_once (scrape E self url depth start)"
  using crawl_inv_scrape[OF crawl_inv_start] by (simp add: crawl_inv_def)

text \<open>On the example site \<open>/bb\<close> is submitted at depth 2 from \<open>/a\<close> and again at depth
  1 from the start page, and \<open>/a\<close> is linked three times: each is fetched once.\<close>

theorem scrape_visited_once_example:
  "visited_once (scrape example_web example_site None 0 start) \<and>
   trace (scrape example_web example_site None 0 start) =
     [Added ''http://example.com'', Fetch ''http://example.com'' 0,
      Added ''http://example.com/a'', Sleep, Fetch ''http://example.com/a'' 1,
      Added ''http://example.com/bb'', Sleep, Fetch ''http://example.com/bb'' 2,
      Added ''http://example.com/ccc'', Sleep, Fetch ''http://example.com/ccc'' 2]"
proof -
  have "trace (scrape example_web example_site None 0 start) =
     [Added ''http://example.com'', Fetch ''http://example.com'' 0,
      Added ''http://example.com/a'', Sleep, Fetch ''http://example.com/a'' 1,
      Added ''http://example.com/bb'', Sleep, Fetch ''http://example.com/bb'' 2,
      Added ''http://example.com/ccc'', Sleep, Fetch ''http://example.com/ccc'' 2]"
    by code_simp
  with scrape_visited_once[of example_web example_site None 0] show ?thesis
    by (rule conjI)
qed

section \<open>The depth bound\<close>

lemma fetch_page_enter_trace:
  assumes "fetch_page E url depth (enter url s) = (r, s')"
  shows "\<exists>sl. trace s' = trace s @ Added url # sl @ [Fetch url depth] \<and> fetch_depths sl = []"
  using assms by (auto simp: fetch_page_def enter_def Let_def)

lemma level_steps_append:
  "level_steps xs \<Longrightarrow> level_steps ys \<Longrightarrow> (xs = [] \<or> ys = [] \<or> hd ys \<le> last xs + 1) \<Longrightarrow>
   level_steps (xs @ ys)"
proof (induction xs rule: level_steps.induct)
  case (1 a b ds)
  then show ?case by simp
qed (cases ys; simp)+

lemma within_depth_links:
  "within_depth depth bound ds \<Longrightarrow> links_depth depth bound ds"
  by (cases ds) (auto simp: within_depth_def links_depth_def list_all_iff)

lemma links_depth_append:
  assumes "links_depth depth bound xs" "links_depth depth bound ys"
  shows "links_depth depth bound (xs @ ys)"
proof (cases "xs = [] \<or> ys = []")
  case True
  then show ?thesis using assms by auto
next
  case False
  have "depth \<le> last xs" using assms(1) False
    by (auto simp: links_depth_def list_all_iff)
  moreover have "hd ys = depth" using assms(2) False by (auto simp: links_depth_def)
  ultimately have "hd ys \<le> last xs + 1" by simp
  then have "level_steps (xs @ ys)"
    using assms by (intro level_steps_append) (auto simp: links_depth_def)
  then show ?thesis using assms False
    by (auto simp: links_depth_def)
qed

lemma within_depth_cons:
  assumes "depth < bound" "links_depth (depth + 1) bound ds"
  shows "within_depth depth bound (depth # ds)"
  using assms by (cases ds) (auto simp: within_depth_def links_depth_def list_all_iff)

lemma scrape_depths:
  "\<exists>t. trace (scrape E self url0 depth s) = trace s @ t \<and>
       within_depth depth (max_depth self) (fetch_depths t)"
  "\<exists>t. trace (scrape_links E self links depth s) = trace s @ t \<and>
       links_depth depth (max_depth self) (fetch_depths t)"
proof (induction E self url0 depth s and E self links depth s rule: scrape_scrape_links.induct)
  case (1 E self url0 depth s)
  define u0 where "u0 = (case url0 of None \<Rightarrow> base_url self | Some u \<Rightarrow> u)"
  have same: "\<exists>t. trace s = trace s @ t \<and> within_depth depth (max_depth self) (fetch_depths t)"
    by (rule exI[of _ "[]"]) (simp add: within_depth_def)
  show ?case
  proof (cases "normalize_url E self u0")
    case (Inl e)
    then show ?thesis using same by (subst scrape.simps) (simp add: u0_def)
  next
    case (Inr url)
    show ?thesis
    proof (cases "url \<in> visited_urls s \<or> max_depth self < depth")
      case True
      then show ?thesis using Inr same by (subst scrape.simps) (auto simp: u0_def)
    next
      case guard: False
      obtain r s' where f: "fetch_page E url depth (enter url s) = (r, s')"
        by (cases "fetch_page E url depth (enter url s)") auto
      obtain sl where sl: "trace s' = trace s @ Added url # sl @ [Fetch url depth]" "fetch_depths sl = []"
        using fetch_page_enter_trace[OF f] by blast
      have one: "\<exists>t. trace s' = trace s @ t \<and> within_depth depth (max_depth self) (fetch_depths t)"
        using sl guard by (intro exI[of _ "Added url # sl @ [Fetch url depth]"]) (simp add: within_depth_def)
      show ?thesis
      proof (cases r)
        case None
        then show ?thesis using Inr guard f one by (subst scrape.simps) (auto simp: u0_def)
      next
        case (Some html)
        show ?thesis
        proof (cases "extract_markdown E html url")
          case (Inl e)
          then show ?thesis using Inr guard f one Some
            by (subst scrape.simps) (auto simp: u0_def)
        next
          case md: (Inr md)
          show ?thesis
          proof (cases "depth < max_depth self")
            case False
            then show ?thesis using Inr guard f one Some md
              by (subst scrape.simps) (auto simp: u0_def)
          next
            case True
            show ?thesis
            proof (cases "get_internal_links E self (visited_urls s') html url")
              case (Inl e)
              then show ?thesis
                using Inr guard f one Some md True
                by (subst scrape.simps) (auto simp: u0_def)
            next
              case links: (Inr links)
              obtain t2 where t2:
                "trace (scrape_links E self links (depth + 1) (s'\<lparr>results := results s' @ [md]\<rparr>)) =
                   trace s' @ t2"
                "links_depth (depth + 1) (max_depth self) (fetch_depths t2)"
                using "1.IH"[OF Inr[unfolded u0_def] guard f[symmetric] Some md True links] by auto
              have "within_depth depth (max_depth self)
                      (fetch_depths (Added url # sl @ [Fetch url depth] @ t2))"
                using within_depth_cons[OF True t2(2)] sl(2) by simp
              then have "\<exists>t. trace (scrape_links E self links (depth + 1) (s'\<lparr>results := results s' @ [md]\<rparr>)) =
                      trace s @ t \<and> within_depth depth (max_depth self) (fetch_depths t)"
                using t2(1) sl(1)
                by (intro exI[of _ "Added url # sl @ [Fetch url depth] @ t2"]) simp
              then show ?thesis
                using Inr guard f Some md True links
                by (subst scrape.simps) (auto simp: u0_def)
            qed
          qed
        qed
      qed
    qed
  qed
next
  case (2 E self depth s)
  show ?case by (rule exI[of _ "[]"]) (simp add: links_depth_def)
next
  case (3 E self link links depth s)
  obtain t1 where t1: "trace (scrape E self (Some link) depth s) = trace s @ t1"
      "within_depth depth (max_depth self) (fetch_depths t1)"
    using "3.IH"(1) by blast
  show ?case
  proof (cases "raised (scrape E self (Some link) depth s) = None")
    case True
    obtain t2 where t2: "trace (scrape_links E self links depth (scrape E self (Some link) depth s)) =
        trace (scrape E self (Some link) depth s) @ t2"
      "links_depth depth (max_depth self) (fetch_depths t2)"
      using "3.IH"(2)[OF refl True] by blast
    show ?thesis
      using True t1 t2 links_depth_append[OF within_depth_links[OF t1(2)] t2(2)]
      by (intro exI[of _ "t1 @ t2"]) (simp add: Let_def)
  next
    case False
    then show ?thesis using t1 within_depth_links[OF t1(2)]
      by (intro exI[of _ "t1"]) (auto simp add: Let_def)
  qed
qed

lemma scrape_dropped:
  "max_depth self < depth \<Longrightarrow>
   scrape E self url0 depth s =
     (case normalize_url E self (case url0 of None \<Rightarrow> base_url self | Some u \<Rightarrow> u) of
        Inl e \<Rightarrow> s\<lparr>raised := Some e\<rparr> | Inr url \<Rightarrow> s)"
  by (subst scrape.simps) (simp split: sum.splits)

lemma scrape_page_links:
  assumes "normalize_url E self (case url0 of None \<Rightarrow> base_url self | Some u \<Rightarrow> u) = Inr url"
    and "url \<notin> visited_urls s" and "depth \<le> max_depth self"
    and "fetch_page E url depth (enter url s) = (Some html, s')"
    and "extract_markdown E html url = Inr md"
  shows "scrape E self url0 depth s =
     (if depth < max_depth self then
        (case get_internal_links E self (visited_urls s') html url of
           Inl e \<Rightarrow> s'\<lparr>results := results s' @ [md], raised := Some e\<rparr>
         | Inr links \<Rightarrow> scrape_links E self links (depth + 1) (s'\<lparr>results := results s' @ [md]\<rparr>))
      else s'\<lparr>results := results s' @ [md]\<rparr>)"
  using assms by (subst scrape.simps) (simp split: sum.splits)

text \<open>
  C2. A call \<open>scrape(url, depth)\<close>, in any state of any crawl and for any maximum depth:

  \<^item> The fetches that it adds to the trace: if there is one at all then \<open>depth\<close> is within
    the maximum depth, the first fetch is the one of the page itself at \<open>depth\<close>, every
    later one is at a depth greater than \<open>depth\<close> and within the maximum, and each is at
    most one level under the fetch before it. So no page is fetched at a depth over the
    maximum.
  \<^item> When \<open>depth\<close> is over the maximum the entry is dropped: the call returns the state
    as it was (the visited set, the results and the trace untouched; only an exception of
    the normalisation, which comes before the guard, is recorded).
  \<^item> When the page has been fetched and rendered, the links are taken from it and
    submitted, at \<open>depth + 1\<close>, only if \<open>depth\<close> is under the maximum; at the maximum the
    call ends with the page appended, and the links are not so much as extracted.
  \<^item> The loop submits every link at the depth it is given, until one raises.
\<close>

theorem scrape_depth_bound:
  "(\<exists>t. trace (scrape E self url0 depth s) = trace s @ t \<and>
        within_depth depth (max_depth self) (fetch_depths t)) \<and>
   (max_depth self < depth \<longrightarrow>
      scrape E self url0 depth s =
        (case normalize_url E self (case url0 of None \<Rightarrow> base_url self | Some u \<Rightarrow> u) of
           Inl e \<Rightarrow> s\<lparr>raised := Some e\<rparr>
         | Inr url \<Rightarrow> s)) \<and>
   (\<forall>url html s' md.
      normalize_url E self (case url0 of None \<Rightarrow> base_url self | Some u \<Rightarrow> u) = Inr url \<and>
      url \<notin> visited_urls s \<and> depth \<le> max_depth self \<and>
      fetch_page E url depth (enter url s) = (Some html, s') \<and>
      extract_markdown E html url = Inr md \<longrightarrow>
      scrape E self url0 depth s =
        (if depth < max_depth self then
           (case get_internal_links E self (visited_urls s') html url of
              Inl e \<Rightarrow> s'\<lparr>results := results s' @ [md], raised := Some e\<rparr>
            | Inr links \<Rightarrow>
                scrape_links E self links (depth + 1) (s'\<lparr>results := results s' @ [md]\<rparr>))
         else s'\<lparr>results := results s' @ [md]\<rparr>)) \<and>
   (\<forall>link links.
      scrape_links E self (link # links) depth s =
        (let s1 = scrape E self (Some link) depth s
         in if raised s1 = None then scrape_links E self links depth s1 else s1))"
proof (intro conjI impI allI)
  show "\<exists>t. trace (scrape E self url0 depth s) = trace s @ t \<and>
        within_depth depth (max_depth self) (fetch_depths t)"
    by (rule scrape_depths(1))
next
  assume "max_depth self < depth"
  then show "scrape E self url0 depth s =
        (case normalize_url E self (case url0 of None \<Rightarrow> base_url self | Some u \<Rightarrow> u) of
           Inl e \<Rightarrow> s\<lparr>raised := Some e\<rparr>
         | Inr url \<Rightarrow> s)"
    by (rule scrape_dropped)
next
  fix url html s' md
  assume "normalize_url E self (case url0 of None \<Rightarrow> base_url self | Some u \<Rightarrow> u) = Inr url \<and>
      url \<notin> visited_urls s \<and> depth \<le> max_depth self \<and>
      fetch_page E url depth (enter url s) = (Some html, s') \<and>
      extract_markdown E html url = Inr md"
  then show "scrape E self url0 depth s =
        (if depth < max_depth self then
           (case get_internal_links E self (visited_urls s') html url of
              Inl e \<Rightarrow> s'\<lparr>results := results s' @ [md], raised := Some e\<rparr>
            | Inr links \<Rightarrow>
                scrape_links E self links (depth + 1) (s'\<lparr>results := results s' @ [md]\<rparr>))
         else s'\<lparr>results := results s' @ [md]\<rparr>)"
    by (intro scrape_page_links) simp_all
next
  fix link links
  show "scrape_links E self (link # links) depth s =
        (let s1 = scrape E self (Some link) depth s
         in if raised s1 = None then scrape_links E self links depth s1 else s1)"
    by simp
qed

text \<open>The crawl of the example site from depth 0 with maximum depth 2: the depths of
  its fetches, and the links of the start page submitted at depth 1. A call at depth 3
  is dropped. On the third site the call at the maximum depth ends with the page
  appended, where the same call under the maximum raises the \<open>ValueError\<close> of the link
  extraction.\<close>

theorem scrape_depth_bound_example:
  "fetch_depths (trace (scrape example_web example_site None 0 start)) = [0, 1, 2, 2] \<and>
   within_depth 0 2 [0, 1, 2, 2] \<and>
   scrape example_web example_site (Some ''/a'') 3 start = start \<and>
   scrape example_web example_site None 0 start =
     scrape_links example_web example_site [''http://example.com/a'', ''http://example.com/bb''] 1
       \<lparr>visited_urls = {''http://example.com''}, results = [start_md],
        trace = [Added ''http://example.com'', Fetch ''http://example.com'' 0], raised = None\<rparr> \<and>
   scrape broken_link_web example_site None 2 start =
     \<lparr>visited_urls = {''http://example.com''}, results = [start_md],
      trace = [Added ''http://example.com'', Fetch ''http://example.com'' 2], raised = None\<rparr> \<and>
   raised (scrape broken_link_web example_site None 0 start) = Some ValueError"
proof -
  note T0 = scrape_depth_bound[of example_web example_site None 0 start]
  note T3 = scrape_depth_bound[of example_web example_site "Some ''/a''" 3 start]
  note T2 = scrape_depth_bound[of broken_link_web example_site None 2 start]
  have m: "max_depth example_site = 2"
    by (simp add: example_site_def)
  have fd: "fetch_depths (trace (scrape example_web example_site None 0 start)) = [0, 1, 2, 2]"
    by code_simp
  obtain t where t: "trace (scrape example_web example_site None 0 start) = trace start @ t"
      "within_depth 0 (max_depth example_site) (fetch_depths t)"
    using T0 by blast
  have "fetch_depths t = [0, 1, 2, 2]"
    using t(1) fd by (simp add: start_def)
  then have wd: "within_depth 0 2 [0, 1, 2, 2]"
    using t(2) m by simp
  have na: "normalize_url example_web example_site
              (case Some ''/a'' of None \<Rightarrow> base_url example_site | Some u \<Rightarrow> u) = Inr ''http://example.com/a''"
    by code_simp
  have dropped: "scrape example_web example_site (Some ''/a'') 3 start = start"
    using T3 m unfolding na by simp
  have n0: "normalize_url example_web example_site
              (case None of None \<Rightarrow> base_url example_site | Some u \<Rightarrow> u) = Inr ''http://example.com''"
    "normalize_url broken_link_web example_site
              (case None of None \<Rightarrow> base_url example_site | Some u \<Rightarrow> u) = Inr ''http://example.com''"
    by code_simp+
  have v: "''http://example.com'' \<notin> visited_urls start"
    by (simp add: start_def)
  have f0: "fetch_page example_web ''http://example.com'' 0 (enter ''http://example.com'' start) =
      (Some (page ''Start'' [''/bb'', ''/a'', ''/a/'']),
       \<lparr>visited_urls = {''http://example.com''}, results = [],
        trace = [Added ''http://example.com'', Fetch ''http://example.com'' 0], raised = None\<rparr>)"
    by (simp add: fetch_page_def enter_def start_def example_web_def raise_for_status_def Let_def)
  have f2: "fetch_page broken_link_web ''http://example.com'' 2 (enter ''http://example.com'' start) =
      (Some (page ''Start'' [''http://['']),
       \<lparr>visited_urls = {''http://example.com''}, results = [],
        trace = [Added ''http://example.com'', Fetch ''http://example.com'' 2], raised = None\<rparr>)"
    by (simp add: fetch_page_def enter_def start_def broken_link_web_def raise_for_status_def Let_def)
  have e0: "extract_markdown example_web (page ''Start'' [''/bb'', ''/a'', ''/a/'']) ''http://example.com'' =
      Inr start_md"
    by code_simp
  have e2: "extract_markdown broken_link_web (page ''Start'' [''http://['']) ''http://example.com'' =
      Inr start_md"
    by code_simp
  have l0: "get_internal_links example_web example_site {''http://example.com''}
      (page ''Start'' [''/bb'', ''/a'', ''/a/'']) ''http://example.com'' =
      Inr [''http://example.com/a'', ''http://example.com/bb'']"
    by code_simp
  have links: "scrape example_web example_site None 0 start =
     scrape_links example_web example_site [''http://example.com/a'', ''http://example.com/bb''] 1
       \<lparr>visited_urls = {''http://example.com''}, results = [start_md],
        trace = [Added ''http://example.com'', Fetch ''http://example.com'' 0], raised = None\<rparr>"
    using T0 n0(1) v m f0 e0 l0 by simp
  have at_max: "scrape broken_link_web example_site None 2 start =
     \<lparr>visited_urls = {''http://example.com''}, results = [start_md],
      trace = [Added ''http://example.com'', Fetch ''http://example.com'' 2], raised = None\<rparr>"
    using T2 n0(2) v m f2 e2 by simp
  have under: "raised (scrape broken_link_web example_site None 0 start) = Some ValueError"
    by code_simp
  show ?thesis
    using fd wd dropped links at_max under by simp
qed

section \<open>A failed fetch\<close>

lemma scrape_fetch_failure_eq:
  assumes "normalize_url E self (case url0 of None \<Rightarrow> base_url self | Some u \<Rightarrow> u) = Inr url"
    and "url \<notin> visited_urls s" and "depth \<le> max_depth self"
    and "fetch_failure (requests_get E (trace (enter url s)) url)"
  shows "scrape E self url0 depth s = (enter url s)\<lparr>trace := trace (enter url s) @ [Fetch url depth]\<rparr>"
  using assms
  by (subst scrape.simps)
     (simp add: fetch_page_def fetch_failure_def raise_for_status_def split: option.splits)

lemma enter_fields:
  "results (enter url s) = results s" "raised (enter url s) = raised s"
  "visited_urls (enter url s) = insert url (visited_urls s)"
  "fetched (trace (enter url s)) = fetched (trace s)"
  "added (trace (enter url s)) = added (trace s) @ [url]"
  by (simp_all add: enter_def Let_def)

text \<open>
  C7, as it is stated, fails: a status outside 2xx is not always a failed fetch. On the
  second site the start page answers with the status 300 and a body. \<open>raise_for_status\<close>
  raises nothing for it, so \<open>fetch_page\<close> returns the body: the page is appended to the
  results, and its link to \<open>/bb\<close> is followed.
\<close>

theorem scrape_status_300_kept:
  "requests_get choices_web (trace (enter ''http://example.com'' start)) ''http://example.com'' =
     Some (Response 300 (page ''Choices'' [''/bb''])) \<and>
   results start = [] \<and>
   results (scrape choices_web example_site None 0 start) =
     [''# Choices'' @ [CHR 0x0A, CHR 0x0A] @ ''**URL:** http://example.com'' @ [CHR 0x0A, CHR 0x0A] @
        ''---'' @ [CHR 0x0A, CHR 0x0A] @ ''# Choices'' @ [CHR 0x0A],
      ''# B'' @ [CHR 0x0A, CHR 0x0A] @ ''**URL:** http://example.com/bb'' @ [CHR 0x0A, CHR 0x0A] @
        ''---'' @ [CHR 0x0A, CHR 0x0A] @ ''# B'' @ [CHR 0x0A]] \<and>
   fetched (trace (scrape choices_web example_site None 0 start)) =
     [''http://example.com'', ''http://example.com/bb'']"
  by code_simp

text \<open>
  C7, for the fetches that fail in the sense of the code. When the fetch of a page fails
  (\<open>requests.get\<close> raises: network error, timeout; or the status of the response is
  one of 400 to 599, for which \<open>raise_for_status\<close> raises), the call of \<open>scrape\<close> for
  that page leaves \<open>results\<close> as it was and raises nothing; its only effects are the
  addition of the URL to the visited set and the one fetch, so that no link of the page
  is followed; and the loop over the links of the parent page goes on with the links
  that remain.
\<close>

theorem scrape_fetch_failure:
  assumes "normalize_url E self (case url0 of None \<Rightarrow> base_url self | Some u \<Rightarrow> u) = Inr url"
    and "url \<notin> visited_urls s" and "depth \<le> max_depth self"
    and "fetch_failure (requests_get E (trace (enter url s)) url)"
  shows "results (scrape E self url0 depth s) = results s \<and>
         raised (scrape E self url0 depth s) = raised s \<and>
         added (trace (scrape E self url0 depth s)) = added (trace s) @ [url] \<and>
         fetched (trace (scrape E self url0 depth s)) = fetched (trace s) @ [url] \<and>
         (\<forall>link links. url0 = Some link \<and> raised s = None \<longrightarrow>
            scrape_links E self (link # links) depth s =
            scrape_links E self links depth (scrape E self url0 depth s))"
proof -
  let ?s' = "scrape E self url0 depth s"
  have eq: "?s' = (enter url s)\<lparr>trace := trace (enter url s) @ [Fetch url depth]\<rparr>"
    by (rule scrape_fetch_failure_eq[OF assms])
  have a: "results ?s' = results s" "raised ?s' = raised s"
    "added (trace ?s') = added (trace s) @ [url]"
    "fetched (trace ?s') = fetched (trace s) @ [url]"
    by (simp_all add: eq enter_fields)
  have loop: "scrape_links E self (link # links) depth s = scrape_links E self links depth ?s'"
    if "url0 = Some link \<and> raised s = None" for link links
    using that a(2) by (simp add: Let_def)
  show ?thesis using a loop by blast
qed

text \<open>On the example site the fetch of \<open>/ccc\<close> fails with the status 404, and the link
  \<open>/dd\<close> of the error page is not followed; the loop goes on to \<open>/bb\<close>, whose page is
  the one result. For \<open>/zz\<close> there is no connection.\<close>

theorem scrape_fetch_failure_example:
  "requests_get example_web (trace (enter ''http://example.com/ccc'' start)) ''http://example.com/ccc'' =
     Some (Response 404 (page ''Not Found'' [''/dd''])) \<and>
   results (scrape example_web example_site (Some ''/ccc'') 1 start) = [] \<and>
   raised (scrape example_web example_site (Some ''/ccc'') 1 start) = None \<and>
   fetched (trace (scrape example_web example_site (Some ''/ccc'') 1 start)) = [''http://example.com/ccc''] \<and>
   scrape_links example_web example_site [''/ccc'', ''/bb''] 1 start =
     scrape_links example_web example_site [''/bb''] 1
       (scrape example_web example_site (Some ''/ccc'') 1 start) \<and>
   fetched (trace (scrape_links example_web example_site [''/ccc'', ''/bb''] 1 start)) =
     [''http://example.com/ccc'', ''http://example.com/bb''] \<and>
   length (results (scrape_links example_web example_site [''/ccc'', ''/bb''] 1 start)) = 1 \<and>
   requests_get example_web (trace (enter ''http://example.com/zz'' start)) ''http://example.com/zz'' = None \<and>
   results (scrape example_web example_site (Some ''/zz'') 1 start) = [] \<and>
   fetched (trace (scrape example_web example_site (Some ''/zz'') 1 start)) = [''http://example.com/zz'']"
proof -
  have n: "normalize_url example_web example_site
             (case Some ''/ccc'' of None \<Rightarrow> base_url example_site | Some u \<Rightarrow> u) =
           Inr ''http://example.com/ccc''"
    by code_simp
  have n': "normalize_url example_web example_site
             (case Some ''/zz'' of None \<Rightarrow> base_url example_site | Some u \<Rightarrow> u) =
           Inr ''http://example.com/zz''"
    by code_simp
  have v: "''http://example.com/ccc'' \<notin> visited_urls start" "''http://example.com/zz'' \<notin> visited_urls start"
    by (simp_all add: start_def)
  have d: "1 \<le> max_depth example_site"
    by (simp add: example_site_def)
  have g: "requests_get example_web (trace (enter ''http://example.com/ccc'' start))
             ''http://example.com/ccc'' = Some (Response 404 (page ''Not Found'' [''/dd'']))"
    by (simp add: example_web_def)
  have g': "requests_get example_web (trace (enter ''http://example.com/zz'' start))
             ''http://example.com/zz'' = None"
    by (simp add: example_web_def)
  have f: "fetch_failure (requests_get example_web (trace (enter ''http://example.com/ccc'' start))
             ''http://example.com/ccc'')"
    unfolding g by (simp add: fetch_failure_def)
  have f': "fetch_failure (requests_get example_web (trace (enter ''http://example.com/zz'' start))
             ''http://example.com/zz'')"
    unfolding g' by (simp add: fetch_failure_def)
  have r: "raised start = None" "results start = []" "fetched (trace start) = []"
    by (simp_all add: start_def)
  have rest: "fetched (trace (scrape_links example_web example_site [''/ccc'', ''/bb''] 1 start)) =
     [''http://example.com/ccc'', ''http://example.com/bb''] \<and>
   length (results (scrape_links example_web example_site [''/ccc'', ''/bb''] 1 start)) = 1"
    by code_simp
  show ?thesis
    using scrape_fetch_failure[OF n v(1) d f] scrape_fetch_failure[OF n' v(2) d f'] r rest g g'
    by simp
qed

section \<open>Tables\<close>

lemma pad_fit: "take n (pad row n) = fit n row"
proof (induction row n rule: pad.induct)
  case (1 row n)
  show ?case
  proof (cases "length row < n")
    case True
    then have "take n (pad row n) = fit n (row @ [[]])"
      using 1 by (subst pad.simps) simp
    also have "\<dots> = fit n row"
    proof -
      have "n - length row = Suc (n - Suc (length row))"
        using True by simp
      then show ?thesis using True by (simp add: fit_def)
    qed
    finally show ?thesis .
  next
    case False
    then show ?thesis by (subst pad.simps) (simp add: fit_def)
  qed
qed

lemma length_fit: "length (fit n row) = n"
  by (simp add: fit_def)

lemma table_to_markdown_eq:
  "table_to_markdown table =
     (let headers = (if header_cells table = [] \<and> body_rows table \<noteq> []
                     then hd (body_rows table) else header_cells table);
          rows = (if header_cells table = [] \<and> body_rows table \<noteq> []
                  then tl (body_rows table) else body_rows table)
      in if headers = [] then []
         else [CHR 0x0A] @ pipe_row headers @ pipe_row (replicate (length headers) ''---'') @
              concat (map (\<lambda>row. pipe_row (fit (length headers) row)) rows))"
  by (simp add: table_to_markdown_def header_cells_def body_rows_def pipe_row_def pad_fit Let_def)

text \<open>
  C6. The table of the specification is rendered as the claim says, the short row padded
  with one empty cell. A header section whose cells are \<open>td\<close> cells is not: the
  header is looked for among the \<open>th\<close> cells of the header section only, so the
  header row becomes the first row of the body, and the cells of the header section
  appear nowhere in the output.
\<close>

theorem table_td_head_lost:
  "table_to_markdown table_of_spec =
     ''\<newline>| A | B |\<newline>| --- | --- |\<newline>| 1 | 2 |\<newline>| 3 |  |\<newline>'' \<and>
   table_to_markdown table_td_head =
     ''\<newline>| Ann | 31 |\<newline>| --- | --- |\<newline>| Bob | 27 |\<newline>''"
  by code_simp

lemma find_all_below:
  assumes "find e p = Some d"
  shows "set (find_all d q) \<subseteq> set (find_all e q)"
proof -
  have "(fst d, snd d) \<in> set (descendants (fst e) (snd e))"
    using find_in_descendants[OF assms] by simp
  then show ?thesis
    using descendants_trans[of "fst d" "snd d" "fst e" "snd e"] by (auto simp: find_all_def)
qed

text \<open>
  C8, as stated, fails on a header section of two rows and no body section: the header
  row is A, B, and the header texts come again spread over the first two data rows, not
  as the first data row.
\<close>

theorem table_two_row_head_rows:
  "find table_two_row_head (named [''tbody'']) = None \<and>
   header_cells table_two_row_head = [''A'', ''B''] \<and>
   body_rows table_two_row_head = [[''A''], [''B'']] \<and>
   table_to_markdown table_two_row_head =
     ''\<newline>| A | B |\<newline>| --- | --- |\<newline>| A |  |\<newline>| B |  |\<newline>''"
  by code_simp

text \<open>
  C8, amended. In a table whose header section holds \<open>th\<close> cells and which has no
  \<open>tbody\<close>, every row with cells inside the header section is also collected as a
  data row; and when the first row collected is the row of the header cells, the output
  is the header row, the separator, the header row again as the first data row, and
  then the other rows.
\<close>

theorem thead_rows_are_data_rows:
  assumes "find table (named [''thead'']) = Some thead"
    and "find table (named [''tbody'']) = None"
    and "header_cells table \<noteq> []"
  shows "set (table_rows thead) \<subseteq> set (body_rows table) \<and>
         (\<forall>rows. body_rows table = header_cells table # rows \<longrightarrow>
            table_to_markdown table =
              [CHR 0x0A] @ pipe_row (header_cells table) @
              pipe_row (replicate (length (header_cells table)) ''---'') @
              pipe_row (header_cells table) @
              concat (map (\<lambda>row. pipe_row (fit (length (header_cells table)) row)) rows))"
proof
  have "set (find_all thead (named [''tr''])) \<subseteq> set (find_all table (named [''tr'']))"
    using assms(1) by (rule find_all_below)
  then show "set (table_rows thead) \<subseteq> set (body_rows table)"
    using assms(2) by (auto simp: table_rows_def body_rows_def)
next
  show "\<forall>rows. body_rows table = header_cells table # rows \<longrightarrow>
            table_to_markdown table =
              [CHR 0x0A] @ pipe_row (header_cells table) @
              pipe_row (replicate (length (header_cells table)) ''---'') @
              pipe_row (header_cells table) @
              concat (map (\<lambda>row. pipe_row (fit (length (header_cells table)) row)) rows)"
    using assms(3) by (simp add: table_to_markdown_eq fit_def Let_def)
qed

theorem thead_rows_are_data_rows_example:
  "table_rows ([''table'', ''body'', ''html'', ''[document]''], Tag ''thead'' [] [tr ''th'' [''A'', ''B'']]) =
     [[''A'', ''B'']] \<and>
   body_rows table_no_tbody = [[''A'', ''B''], [''1'', ''2'']] \<and>
   table_to_markdown table_no_tbody =
     ''\<newline>| A | B |\<newline>| --- | --- |\<newline>| A | B |\<newline>| 1 | 2 |\<newline>''"
proof -
  have a: "find table_no_tbody (named [''thead'']) =
      Some ([''table'', ''body'', ''html'', ''[document]''], Tag ''thead'' [] [tr ''th'' [''A'', ''B'']])"
    by code_simp
  have b: "find table_no_tbody (named [''tbody'']) = None"
    by code_simp
  have h: "header_cells table_no_tbody = [''A'', ''B'']"
    by code_simp
  have c: "header_cells table_no_tbody \<noteq> []"
    by (simp add: h)
  have r: "body_rows table_no_tbody = header_cells table_no_tbody # [[''1'', ''2'']]"
    unfolding h by code_simp
  have t: "table_rows ([''table'', ''body'', ''html'', ''[document]''], Tag ''thead'' [] [tr ''th'' [''A'', ''B'']]) =
     [[''A'', ''B'']]"
    by code_simp
  have "table_to_markdown table_no_tbody =
              [CHR 0x0A] @ pipe_row (header_cells table_no_tbody) @
              pipe_row (replicate (length (header_cells table_no_tbody)) ''---'') @
              pipe_row (header_cells table_no_tbody) @
              concat (map (\<lambda>row. pipe_row (fit (length (header_cells table_no_tbody)) row)) [[''1'', ''2'']])"
    using thead_rows_are_data_rows[OF a b c] r by blast
  also have "\<dots> = ''\<newline>| A | B |\<newline>| --- | --- |\<newline>| A | B |\<newline>| 1 | 2 |\<newline>''"
    unfolding h by code_simp
  finally show ?thesis using t r h by simp
qed

section \<open>Code blocks\<close>

text \<open>
  C10, as stated, fails on an empty \<open>pre\<close> element: its raw text does not end with a
  newline, yet the closing fence begins a line of its own, right after the opening one.
\<close>

theorem pre_empty_fence:
  "code_block pre_empty = opening_fence pre_empty @ code_text pre_empty @ ''```'' @ [CHR 0x0A] \<and>
   code_text pre_empty = [] \<and>
   ends_with_newline (opening_fence pre_empty @ code_text pre_empty) \<and>
   \<not> ends_with_newline (code_text pre_empty)"
  by code_simp

text \<open>
  C10, amended. The fenced block of a \<open>pre\<close> element is the opening fence, the raw
  text and the closing fence with nothing in between; the closing fence begins a line
  of its own if and only if the raw text is empty or ends with a newline; and this
  block is what the loop of \<open>extract_markdown\<close> appends for a \<open>pre\<close> element.
\<close>

theorem code_block_fence:
  "code_block pre = opening_fence pre @ code_text pre @ ''```'' @ [CHR 0x0A] \<and>
   (ends_with_newline (opening_fence pre @ code_text pre) \<longleftrightarrow>
      code_text pre = [] \<or> ends_with_newline (code_text pre)) \<and>
   (name (snd pre) = ''pre'' \<longrightarrow> render E pre url = Inr [code_block pre])"
  by (auto simp: code_block_def opening_fence_def code_text_def ends_with_newline_def
        render_def headings_def Let_def split: option.splits)

theorem code_block_fence_example:
  "code_block pre_js = opening_fence pre_js @ code_text pre_js @ ''```'' @ [CHR 0x0A] \<and>
   code_text pre_js = ''a = 1'' @ [CHR 0x0A] \<and>
   ends_with_newline (opening_fence pre_js @ code_text pre_js) \<and>
   render example_web pre_js ''http://example.com'' = Inr [code_block pre_js]"
proof -
  have n: "name (snd pre_js) = ''pre''"
    by code_simp
  have t: "code_text pre_js = ''a = 1'' @ [CHR 0x0A]"
    by code_simp
  have e: "ends_with_newline (opening_fence pre_js @ code_text pre_js)"
    by code_simp
  show ?thesis
    using code_block_fence[of pre_js example_web "''http://example.com''"] n t e by simp
qed

section \<open>Nested lists\<close>

subsection \<open>Fragments and document order\<close>

lemma extract_loop_parts:
  assumes "extract_loop E url (enumerate k els) processed parts0 = Inr parts"
    and "\<forall>i\<in>processed. i < k"
  shows "\<exists>rs. list_all2 (\<lambda>e r. render E e url = Inr r) (filter visible els) rs \<and>
              parts = parts0 @ concat rs"
  using assms
proof (induction els arbitrary: k processed parts0)
  case Nil
  then show ?case by simp
next
  case (Cons e els)
  have k: "k \<notin> processed" using Cons.prems(2) by auto
  show ?case
  proof (cases "visible e")
    case False
    then have "extract_loop E url (enumerate (Suc k) els) processed parts0 = Inr parts"
      using Cons.prems(1) k by (auto simp: visible_def)
    moreover have "\<forall>i\<in>processed. i < Suc k" using Cons.prems(2) by auto
    ultimately show ?thesis using Cons.IH False by auto
  next
    case True
    then obtain r where r: "render E e url = Inr r"
      and rest: "extract_loop E url (enumerate (Suc k) els) (insert k processed) (parts0 @ r) = Inr parts"
      using Cons.prems(1) k by (auto simp: visible_def split: sum.splits)
    have "\<forall>i\<in>insert k processed. i < Suc k" using Cons.prems(2) by auto
    from Cons.IH[OF rest this] obtain rs where
      "list_all2 (\<lambda>e r. render E e url = Inr r) (filter visible els) rs" "parts = (parts0 @ r) @ concat rs"
      by blast
    then show ?thesis using True r by (intro exI[of _ "r # rs"]) simp
  qed
qed

lemma render_list:
  "name (snd e) \<in> {''ul'', ''ol''} \<Longrightarrow> render E e url = Inr [list_block e]"
  by (auto simp: render_def headings_def Let_def)

lemma descendants_split:
  "(a, m) \<in> set (descendants anc n) \<Longrightarrow>
     \<exists>pre post. descendants anc n = pre @ (a, m) # descendants a m @ post"
proof (induction anc n rule: descendants.induct)
  case (1 anc nm as kids)
  from "1.prems" obtain k where k: "k \<in> set kids"
    and c: "(a, m) = (nm # anc, k) \<or> (a, m) \<in> set (descendants (nm # anc) k)"
    by auto
  from k obtain ks1 ks2 where kids: "kids = ks1 @ k # ks2"
    by (auto simp: in_set_conv_decomp)
  let ?f = "\<lambda>k. (nm # anc, k) # descendants (nm # anc) k"
  have d: "descendants anc (Tag nm as kids) = concat (map ?f ks1) @ ?f k @ concat (map ?f ks2)"
    by (simp add: kids)
  from c show ?case
  proof
    assume "(a, m) = (nm # anc, k)"
    then show ?thesis using d by (intro exI[of _ "concat (map ?f ks1)"] exI[of _ "concat (map ?f ks2)"]) simp
  next
    assume "(a, m) \<in> set (descendants (nm # anc) k)"
    from "1.IH"[OF k this] obtain pre post where
      "descendants (nm # anc) k = pre @ (a, m) # descendants a m @ post" by blast
    then show ?thesis using d
      by (intro exI[of _ "concat (map ?f ks1) @ (nm # anc, k) # pre"]
            exI[of _ "post @ concat (map ?f ks2)"]) simp
  qed
qed simp_all

lemma descendants_ancestors:
  "(a, m) \<in> set (descendants anc n) \<Longrightarrow> set anc \<subseteq> set a"
proof (induction anc n rule: descendants.induct)
  case (1 anc nm as kids)
  then show ?case by fastforce
qed simp_all

lemma descendants_strings:
  "(a, m) \<in> set (descendants anc n) \<Longrightarrow> \<exists>x y. strings n = x @ strings m @ y"
proof (induction anc n rule: descendants.induct)
  case (1 anc nm as kids)
  from "1.prems" obtain k where k: "k \<in> set kids"
    and c: "(a, m) = (nm # anc, k) \<or> (a, m) \<in> set (descendants (nm # anc) k)"
    by auto
  from k obtain ks1 ks2 where kids: "kids = ks1 @ k # ks2"
    by (auto simp: in_set_conv_decomp)
  have s: "strings (Tag nm as kids) = concat (map strings ks1) @ strings k @ concat (map strings ks2)"
    by (simp add: kids)
  from c show ?case
  proof
    assume "(a, m) = (nm # anc, k)"
    then show ?thesis using s by auto
  next
    assume "(a, m) \<in> set (descendants (nm # anc) k)"
    from "1.IH"[OF k this] obtain x y where "strings k = x @ strings m @ y" by blast
    then show ?thesis using s
      by (intro exI[of _ "concat (map strings ks1) @ x"] exI[of _ "y @ concat (map strings ks2)"]) simp
  qed
qed simp_all

subsection \<open>Whitespace\<close>

lemma sub_spaces_nonspace:
  "\<not> isspace c \<Longrightarrow> sub_spaces b (u @ c # v) = sub_spaces b u @ c # sub_spaces False v"
  by (induction u arbitrary: b) auto

lemma sub_spaces_all_space:
  "\<forall>c\<in>set w. isspace c \<Longrightarrow> \<forall>c\<in>set (sub_spaces b w). isspace c"
  by (induction w arbitrary: b) (auto simp: isspace_def whitespace_def)

lemma strip_all_space:
  assumes "\<forall>c\<in>set w. isspace c"
  shows "strip isspace w = []"
proof -
  have d: "dropWhile isspace w = []"
    using assms by (simp add: dropWhile_eq_Nil_conv)
  show ?thesis
    by (simp only: strip_def lstrip_def rstrip_def d rev.simps dropWhile.simps)
qed

text \<open>A core: a text that begins and ends with a character that is not whitespace.\<close>

lemma strip_around_core:
  assumes "k \<noteq> []" "\<not> isspace (hd k)" "\<not> isspace (last k)"
  shows "strip isspace (a @ k @ b) = dropWhile isspace a @ k @ rev (dropWhile isspace (rev b))"
proof -
  have l: "dropWhile isspace (a @ k @ b) = dropWhile isspace a @ k @ b"
    using assms(1,2) by (cases k) (auto simp: dropWhile_append)
  have "rev (dropWhile isspace a @ k @ b) = rev b @ rev k @ rev (dropWhile isspace a)"
    by simp
  moreover have "dropWhile isspace (rev b @ rev k @ rev (dropWhile isspace a)) =
      dropWhile isspace (rev b) @ rev k @ rev (dropWhile isspace a)"
    using assms(1,3) by (cases "rev k") (auto simp: dropWhile_append hd_rev)
  ultimately show ?thesis
    by (simp add: strip_def lstrip_def rstrip_def l)
qed

lemma text_core:
  "\<exists>w1 k w2. t = w1 @ k @ w2 \<and> (\<forall>c\<in>set w1. isspace c) \<and> (\<forall>c\<in>set w2. isspace c) \<and>
     (k = [] \<or> (\<not> isspace (hd k) \<and> \<not> isspace (last k)))"
proof -
  let ?w1 = "takeWhile isspace t"
  let ?r = "dropWhile isspace t"
  let ?w2 = "rev (takeWhile isspace (rev ?r))"
  let ?k = "rev (dropWhile isspace (rev ?r))"
  have "t = ?w1 @ ?r" by simp
  moreover have "?r = ?k @ ?w2"
    by (metis rev_append rev_rev_ident takeWhile_dropWhile_id)
  moreover have "\<forall>c\<in>set ?w1. isspace c" by (auto dest: set_takeWhileD)
  moreover have "\<forall>c\<in>set ?w2. isspace c" by (auto dest: set_takeWhileD)
  moreover have "?k = [] \<or> (\<not> isspace (hd ?k) \<and> \<not> isspace (last ?k))"
  proof (cases "?k = []")
    case False
    then have ne: "dropWhile isspace (rev ?r) \<noteq> []" by simp
    then have "\<not> isspace (hd (dropWhile isspace (rev ?r)))" by (rule hd_dropWhile)
    then have l: "\<not> isspace (last ?k)" using ne by (simp add: last_rev)
    have "?r \<noteq> []"
    proof
      assume a: "?r = []"
      have "?k = []" unfolding a by simp
      with False show False by simp
    qed
    then have "\<not> isspace (hd ?r)" by (rule hd_dropWhile)
    moreover have "hd ?r = hd ?k" using \<open>?r = ?k @ ?w2\<close> False by (metis hd_append2)
    ultimately show ?thesis using l by simp
  qed simp
  ultimately show ?thesis by metis
qed

lemma sub_spaces_core:
  assumes "k \<noteq> []" "\<not> isspace (hd k)" "\<not> isspace (last k)"
  shows "sub_spaces b (x @ k @ y) = sub_spaces b x @ sub_spaces False k @ sub_spaces False y"
    and "sub_spaces False k \<noteq> []"
    and "\<not> isspace (hd (sub_spaces False k))" and "\<not> isspace (last (sub_spaces False k))"
proof -
  obtain c k' where k: "k = c # k'" using assms(1) by (cases k) auto
  obtain k'' d where k2: "k = k'' @ [d]" using assms(1) by (cases k rule: rev_cases) auto
  have c: "\<not> isspace c" using assms(2) k by simp
  have d: "\<not> isspace d" using assms(3) k2 by simp
  have e: "sub_spaces b' (k @ y) = sub_spaces b' k'' @ d # sub_spaces False y" for b' y
    using sub_spaces_nonspace[OF d, of b' k'' y] k2 by simp
  have f: "sub_spaces b' (x @ k @ z) = sub_spaces b' x @ c # sub_spaces False (k' @ z)" for b' x z
    using sub_spaces_nonspace[OF c, of b' x "k' @ z"] k by simp
  have g: "sub_spaces b' (k @ z) = sub_spaces False (k @ z)" for b' z
    using f[of b' "[]" z] f[of False "[]" z] by simp
  have "sub_spaces b (x @ k @ y) = sub_spaces b x @ sub_spaces False (k @ y)"
    using f[of b x y] f[of False "[]" y] by simp
  also have "sub_spaces False (k @ y) = sub_spaces False k @ sub_spaces False y"
    using e[of False y] e[of False "[]"] by simp
  finally show "sub_spaces b (x @ k @ y) = sub_spaces b x @ sub_spaces False k @ sub_spaces False y" .
  show "sub_spaces False k \<noteq> []" using k c by simp
  show "\<not> isspace (hd (sub_spaces False k))" using k c by simp
  show "\<not> isspace (last (sub_spaces False k))" using e[of False "[]"] d by simp
qed

lemma clean_text_core:
  assumes "k \<noteq> []" "\<not> isspace (hd k)" "\<not> isspace (last k)"
  shows "\<exists>x' y'. clean_text (x @ k @ y) = x' @ sub_spaces False k @ y'"
  unfolding clean_text_def sub_spaces_core(1)[OF assms]
  using strip_around_core[OF sub_spaces_core(2,3,4)[OF assms]] by blast

lemma clean_text_of_core:
  assumes "k \<noteq> []" "\<not> isspace (hd k)" "\<not> isspace (last k)"
    and "\<forall>c\<in>set w1. isspace c" "\<forall>c\<in>set w2. isspace c"
  shows "clean_text (w1 @ k @ w2) = sub_spaces False k"
proof -
  have 1: "dropWhile isspace (sub_spaces False w1) = []"
    using sub_spaces_all_space[OF assms(4)] by simp
  have 2: "dropWhile isspace (rev (sub_spaces False w2)) = []"
    using sub_spaces_all_space[OF assms(5)] by simp
  show ?thesis
    unfolding clean_text_def sub_spaces_core(1)[OF assms(1,2,3)]
    using strip_around_core[OF sub_spaces_core(2,3,4)[OF assms(1,2,3)], of "sub_spaces False w1" "sub_spaces False w2"]
    by (simp add: 1 2)
qed

lemma clean_text_inside:
  "\<exists>x' y'. clean_text (x @ t @ y) = x' @ clean_text t @ y'"
proof -
  obtain w1 k w2 where t: "t = w1 @ k @ w2" and w: "\<forall>c\<in>set w1. isspace c" "\<forall>c\<in>set w2. isspace c"
    and k: "k = [] \<or> (\<not> isspace (hd k) \<and> \<not> isspace (last k))"
    using text_core[of t] by blast
  show ?thesis
  proof (cases "k = []")
    case True
    have "\<forall>c\<in>set (sub_spaces False (w1 @ w2)). isspace c"
      using w by (intro sub_spaces_all_space) auto
    then have "clean_text t = []"
      using t True by (simp add: clean_text_def strip_all_space)
    then show ?thesis
      by (intro exI[of _ "clean_text (x @ t @ y)"] exI[of _ "[]"]) simp
  next
    case False
    then have c: "k \<noteq> []" "\<not> isspace (hd k)" "\<not> isspace (last k)" using k by auto
    have "clean_text t = sub_spaces False k"
      unfolding t by (rule clean_text_of_core[OF c w])
    moreover have "\<exists>x' y'. clean_text ((x @ w1) @ k @ (w2 @ y)) = x' @ sub_spaces False k @ y'"
      by (rule clean_text_core[OF c])
    ultimately show ?thesis by (simp add: t)
  qed
qed

lemma sub_spaces_no_newline: "CHR 0x0A \<notin> set (sub_spaces b s)"
  by (induction s arbitrary: b) (auto simp: isspace_def whitespace_def)

lemma clean_text_no_newline: "CHR 0x0A \<notin> set (clean_text s)"
proof -
  have "set (strip isspace t) \<subseteq> set t" for t
  proof
    fix x assume "x \<in> set (strip isspace t)"
    then have "x \<in> set (dropWhile isspace (rev (dropWhile isspace t)))"
      by (simp add: strip_def rstrip_def lstrip_def)
    then have "x \<in> set (rev (dropWhile isspace t))" by (rule set_dropWhileD)
    then have "x \<in> set (dropWhile isspace t)" by simp
    then show "x \<in> set t" by (rule set_dropWhileD)
  qed
  then show ?thesis using sub_spaces_no_newline[of False s] by (auto simp: clean_text_def)
qed

subsection \<open>Newlines\<close>

lemma sub_newlines_other:
  "c \<noteq> CHR 0x0A \<Longrightarrow> sub_newlines n (x @ c # v) = sub_newlines n x @ c # sub_newlines 0 v"
  by (induction x arbitrary: n) auto

lemma sub_newlines_plain:
  "CHR 0x0A \<notin> set t \<Longrightarrow> sub_newlines 0 (t @ y) = t @ sub_newlines 0 y"
  by (induction t) auto

lemma sub_newlines_keeps:
  assumes "CHR 0x0A \<notin> set t" "t \<noteq> []"
  shows "sub_newlines n (x @ t @ y) = sub_newlines n x @ t @ sub_newlines 0 y"
proof -
  obtain c t' where t: "t = c # t'" using assms(2) by (cases t) auto
  then have "c \<noteq> CHR 0x0A" "CHR 0x0A \<notin> set t'" using assms(1) by auto
  then show ?thesis
    using sub_newlines_other[of c n x "t' @ y"] sub_newlines_plain[of t' y] by (simp add: t)
qed

lemma sub_newlines_twice:
  assumes "CHR 0x0A \<notin> set t"
  shows "\<exists>a' b' c'. sub_newlines 0 (a @ t @ b @ t @ c) = a' @ t @ b' @ t @ c'"
proof (cases "t = []")
  case True
  then show ?thesis
    by (intro exI[of _ "sub_newlines 0 (a @ b @ c)"] exI[of _ "[]"]) simp
next
  case False
  have "sub_newlines 0 (a @ t @ b @ t @ c) = sub_newlines 0 a @ t @ sub_newlines 0 (b @ t @ c)"
    by (rule sub_newlines_keeps[OF assms False])
  also have "sub_newlines 0 (b @ t @ c) = sub_newlines 0 b @ t @ sub_newlines 0 c"
    by (rule sub_newlines_keeps[OF assms False])
  finally show ?thesis by blast
qed

subsection \<open>Joined lines\<close>

lemma join_inside: "s \<in> set xs \<Longrightarrow> \<exists>x y. join sep xs = x @ s @ y"
proof (induction sep xs rule: join.induct)
  case (1 sep)
  then show ?case by simp
next
  case (2 sep x)
  then show ?case by (auto intro: exI[of _ "[]"])
next
  case (3 sep x y ys)
  show ?case
  proof (cases "s = x")
    case True
    then show ?thesis by (auto intro: exI[of _ "[]"])
  next
    case False
    then have "s \<in> set (y # ys)" using "3.prems" by simp
    from "3.IH"[OF this] obtain a b where "join sep (y # ys) = a @ s @ b" by blast
    then show ?thesis by (intro exI[of _ "x @ sep @ a"] exI[of _ b]) simp
  qed
qed

lemma list_items_line:
  "li \<in> set lis \<Longrightarrow> \<exists>p. p @ clean_text (get_text (snd li)) \<in> set (list_items ordered i lis)"
proof (induction lis arbitrary: i)
  case Nil
  then show ?case by simp
next
  case (Cons a lis)
  show ?case
  proof (cases "li = a")
    case True
    show ?thesis
    proof (cases ordered)
      case True
      with \<open>li = a\<close> show ?thesis by (intro exI[of _ "''  '' @ str i @ ''. ''"]) simp
    next
      case False
      with \<open>li = a\<close> show ?thesis by (intro exI[of _ "''  - ''"]) simp
    qed
  next
    case False
    then have "li \<in> set lis" using Cons.prems by simp
    from Cons.IH[OF this, of "Suc i"] show ?thesis by auto
  qed
qed

lemma list_block_inside:
  assumes "li \<in> set (find_all_children e (named [''li'']))"
  shows "\<exists>x y. list_block e = x @ clean_text (get_text (snd li)) @ y"
proof -
  obtain p where "p @ clean_text (get_text (snd li)) \<in>
      set (list_items (name (snd e) = ''ol'') 1 (find_all_children e (named [''li''])))"
    using list_items_line[OF assms] by blast
  from join_inside[OF this, of "[CHR 0x0A]"] obtain x y where
    "join [CHR 0x0A] (list_items (name (snd e) = ''ol'') 1 (find_all_children e (named [''li'']))) =
       x @ (p @ clean_text (get_text (snd li))) @ y" by blast
  then show ?thesis
    by (intro exI[of _ "[CHR 0x0A] @ x @ p"] exI[of _ "y @ [CHR 0x0A]"]) (simp add: list_block_def)
qed

subsection \<open>The nested list is rendered twice\<close>

lemma child_in_descendants:
  assumes "c \<in> set (find_all_children e p)"
  shows "c \<in> set (descendants (fst e) (snd e))"
proof (cases "snd e")
  case (Tag nm as kids)
  then show ?thesis using assms by (cases e) (auto simp: find_all_children_def)
qed (use assms in \<open>auto simp: find_all_children_def\<close>)

lemma below_child:
  assumes "c \<in> set (find_all_children e p)" "d \<in> set (descendants (fst c) (snd c))"
  shows "d \<in> set (descendants (fst e) (snd e))"
  using descendants_trans[of "fst c" "snd c" "fst e" "snd e"] child_in_descendants[OF assms(1)] assms(2)
  by auto

lemma list_all2_two:
  assumes "list_all2 R (v1 @ a # v2 @ b # v3) rs"
  shows "\<exists>r1 ra r2 rb r3. rs = r1 @ ra # r2 @ rb # r3 \<and> R a ra \<and> R b rb"
proof -
  from assms obtain r1 t1 where 1: "rs = r1 @ t1" "list_all2 R (a # v2 @ b # v3) t1"
    by (auto simp: list_all2_append1)
  then obtain ra t2 where 2: "t1 = ra # t2" "R a ra" "list_all2 R (v2 @ b # v3) t2"
    by (auto simp: list_all2_Cons1)
  then obtain r2 t3 where 3: "t2 = r2 @ t3" "list_all2 R (b # v3) t3"
    by (auto simp: list_all2_append1)
  then obtain rb r3 where 4: "t3 = rb # r3" "R b rb"
    by (auto simp: list_all2_Cons1)
  show ?thesis using 1 2 3 4 by blast
qed

text \<open>
  C9, as it is stated, fails for a nested list that the block scan does not reach. In
  the first page the outer list stands in a \<open>div\<close> beside the \<open>main\<close> element, which is
  the content root; in the second it stands in a \<open>nav\<close> element, which is removed
  before the root is looked for. The nested list is in an item of the outer list and
  not inside a \<open>pre\<close> or \<open>code\<close> element, and the text of its item, \<open>apple\<close>, is in the
  Markdown of neither page: it is emitted not twice but never.
\<close>

theorem nested_list_outside_root:
  "side_outer \<in> set (find_all ([], page_sidebar) (named [''ul'', ''ol''])) \<and>
   side_li \<in> set (find_all_children side_outer (named [''li''])) \<and>
   side_inner \<in> set (find_all side_li (named [''ul'', ''ol''])) \<and>
   \<not> has_parent side_inner ''pre'' \<and> \<not> has_parent side_inner ''code'' \<and>
   side_item \<in> set (find_all_children side_inner (named [''li''])) \<and>
   clean_text (get_text (snd side_item)) = ''apple'' \<and>
   extract_markdown example_web page_sidebar ''http://example.com'' =
     Inr ''# \<newline>\<newline>**URL:** http://example.com\<newline>\<newline>---\<newline>\<newline>Intro\<newline>'' \<and>
   extract_markdown example_web page_nav ''http://example.com'' =
     Inr ''# \<newline>\<newline>**URL:** http://example.com\<newline>\<newline>---\<newline>\<newline>Intro\<newline>'' \<and>
   \<not> contains ''apple''
       ''# \<newline>\<newline>**URL:** http://example.com\<newline>\<newline>---\<newline>\<newline>Intro\<newline>''"
  by code_simp

text \<open>
  C9, for the lists that the block scan reaches. Let a list lie in the content root (of
  the page after the \<open>script\<close>, \<open>style\<close>, \<open>nav\<close>, \<open>footer\<close>, \<open>header\<close> and \<open>aside\<close>
  elements are removed), let one of its own items hold a nested list
  that is not inside a \<open>pre\<close> or \<open>code\<close> element, and let the page be rendered. Then
  the block of the outer list and the block of the nested list are two fragments of
  \<open>md_parts\<close>: the set \<open>processed\<close> does not keep the nested list from being rendered
  again. The text of every item of the nested list stands in the line of the outer item,
  whose text is taken from all its descendants, and in the block of the nested list; so
  it stands twice in the Markdown of the page.
\<close>

theorem nested_list_emitted_twice:
  assumes md: "extract_markdown E html url = Inr md"
    and outer: "outer \<in> set (find_all (find_content_container ([], decompose unwanted html))
                                  (named [''ul'', ''ol'']))"
    and li: "li \<in> set (find_all_children outer (named [''li'']))"
    and inner: "inner \<in> set (find_all li (named [''ul'', ''ol'']))"
    and vis: "\<not> has_parent inner ''pre'' \<and> \<not> has_parent inner ''code''"
    and item: "item \<in> set (find_all_children inner (named [''li'']))"
  shows "(\<exists>parts p1 p2 p3. md_parts E html url = Inr parts \<and>
            parts = p1 @ list_block outer # p2 @ list_block inner # p3) \<and>
         (\<exists>x y. list_block outer = x @ clean_text (get_text (snd li)) @ y) \<and>
         (\<exists>x y. clean_text (get_text (snd li)) = x @ clean_text (get_text (snd item)) @ y) \<and>
         (\<exists>x y. list_block inner = x @ clean_text (get_text (snd item)) @ y) \<and>
         (\<exists>a b c. md = a @ clean_text (get_text (snd item)) @ b @ clean_text (get_text (snd item)) @ c)"
proof -
  let ?t = "clean_text (get_text (snd item))"
  define content where "content = find_content_container ([], decompose unwanted html)"
  define D where "D = descendants (fst content) (snd content)"
  define Pb where "Pb = (\<lambda>d::element. is_tag (snd d) \<and> named blocks (snd d))"
  obtain parts where parts: "md_parts E html url = Inr parts" and md': "md = sub_newlines 0 (concat parts)"
    using md by (auto simp: extract_markdown_def split: sum.splits)
  obtain header where loop: "extract_loop E url (enumerate 0 (filter Pb D)) {} header = Inr parts"
    using parts by (simp add: md_parts_def Let_def content_def D_def Pb_def find_all_def)
  \<comment> \<open>where the two lists stand in the document\<close>
  have oD: "outer \<in> set D" and on: "name (snd outer) \<in> {''ul'', ''ol''}" and ot: "is_tag (snd outer)"
    using outer by (auto simp: find_all_def content_def D_def named_def)
  obtain pre post where D: "D = pre @ outer # descendants (fst outer) (snd outer) @ post"
    using descendants_split[of "fst outer" "snd outer" "fst content" "snd content"] oD
    by (auto simp: D_def)
  have i_li: "inner \<in> set (descendants (fst li) (snd li))"
    and "in": "name (snd inner) \<in> {''ul'', ''ol''}" and it: "is_tag (snd inner)"
    using inner by (auto simp: find_all_def named_def)
  have iO: "inner \<in> set (descendants (fst outer) (snd outer))"
    using below_child[OF li i_li] .
  have Pbo: "Pb outer" and Pbi: "Pb inner"
    using on ot "in" it by (auto simp: Pb_def named_def blocks_def)
  have "set (fst outer) \<subseteq> set (fst inner)"
    using descendants_ancestors[of "fst inner" "snd inner" "fst outer" "snd outer"] iO by simp
  then have vo: "visible outer" and vi: "visible inner"
    using vis by (auto simp: visible_def has_parent_def)
  obtain m1 m2 where m: "filter Pb (descendants (fst outer) (snd outer)) = m1 @ inner # m2"
  proof -
    have "inner \<in> set (filter Pb (descendants (fst outer) (snd outer)))"
      using iO Pbi by simp
    then show ?thesis using that by (auto simp: in_set_conv_decomp)
  qed
  have "filter visible (filter Pb D) =
        filter visible (filter Pb pre) @ outer # filter visible m1 @ inner #
        (filter visible m2 @ filter visible (filter Pb post))"
    using Pbo vo vi by (simp add: D m)
  moreover obtain rs where rs: "list_all2 (\<lambda>e r. render E e url = Inr r) (filter visible (filter Pb D)) rs"
      and p: "parts = header @ concat rs"
    using extract_loop_parts[OF loop] by auto
  ultimately obtain r1 ro r2 ri r3 where r: "rs = r1 @ ro # r2 @ ri # r3"
      and ro: "render E outer url = Inr ro" and ri: "render E inner url = Inr ri"
    using list_all2_two[of "\<lambda>e r. render E e url = Inr r"] by metis
  have "ro = [list_block outer]" "ri = [list_block inner]"
    using ro ri render_list[OF on] render_list[OF "in"] by auto
  then have split: "parts = (header @ concat r1) @ list_block outer # concat r2 @ list_block inner # concat r3"
    using p r by simp
  \<comment> \<open>where the text of the nested item stands in the two blocks\<close>
  obtain x1 y1 where b1: "list_block outer = x1 @ clean_text (get_text (snd li)) @ y1"
    using list_block_inside[OF li] by blast
  obtain x3 y3 where b3: "list_block inner = x3 @ ?t @ y3"
    using list_block_inside[OF item] by blast
  have "item \<in> set (descendants (fst li) (snd li))"
    using descendants_trans[of "fst inner" "snd inner" "fst li" "snd li"] i_li
      child_in_descendants[OF item] by auto
  then obtain u v where "strings (snd li) = u @ strings (snd item) @ v"
    using descendants_strings[of "fst item" "snd item" "fst li" "snd li"] by auto
  then have "get_text (snd li) = concat u @ get_text (snd item) @ concat v"
    by (simp add: get_text_def)
  then obtain x2 y2 where b2: "clean_text (get_text (snd li)) = x2 @ ?t @ y2"
    using clean_text_inside[of "concat u" "get_text (snd item)" "concat v"] by auto
  \<comment> \<open>the joined text\<close>
  have cp: "concat parts =
        (concat (header @ concat r1) @ x1 @ x2) @ ?t @ (y2 @ y1 @ concat (concat r2) @ x3) @ ?t @
        (y3 @ concat (concat r3))"
    by (simp add: split b1 b2 b3)
  have "\<exists>a b c. sub_newlines 0 ((concat (header @ concat r1) @ x1 @ x2) @ ?t @
          (y2 @ y1 @ concat (concat r2) @ x3) @ ?t @ (y3 @ concat (concat r3))) = a @ ?t @ b @ ?t @ c"
    by (rule sub_newlines_twice[OF clean_text_no_newline])
  then have e: "\<exists>a b c. md = a @ ?t @ b @ ?t @ c"
    unfolding md' cp .
  have a: "\<exists>parts p1 p2 p3. md_parts E html url = Inr parts \<and>
            parts = p1 @ list_block outer # p2 @ list_block inner # p3"
    using parts split by blast
  have b: "\<exists>x y. list_block outer = x @ clean_text (get_text (snd li)) @ y"
    using b1 by blast
  have c: "\<exists>x y. clean_text (get_text (snd li)) = x @ ?t @ y"
    using b2 by blast
  have d: "\<exists>x y. list_block inner = x @ ?t @ y"
    using b3 by blast
  from a b c d e show ?thesis by (intro conjI)
qed

text \<open>On the example page the nested item \<open>apple\<close> is in the line of the outer item
  \<open>Fruit\<close> and again in the block of the nested list.\<close>

theorem nested_list_emitted_twice_example:
  "extract_markdown example_web page_nested ''http://example.com'' =
     Inr ''# \<newline>\<newline>**URL:** http://example.com\<newline>\<newline>---\<newline>\<newline>  - Fruit applepear\<newline>  - Bread\<newline>\<newline>  - apple\<newline>  - pear\<newline>'' \<and>
   list_block outer_elem = ''\<newline>  - Fruit applepear\<newline>  - Bread\<newline>'' \<and>
   list_block inner_elem = ''\<newline>  - apple\<newline>  - pear\<newline>'' \<and>
   (\<exists>a b c. ''# \<newline>\<newline>**URL:** http://example.com\<newline>\<newline>---\<newline>\<newline>  - Fruit applepear\<newline>  - Bread\<newline>\<newline>  - apple\<newline>  - pear\<newline>'' =
      a @ ''apple'' @ b @ ''apple'' @ c)"
proof -
  let ?md = "''# \<newline>\<newline>**URL:** http://example.com\<newline>\<newline>---\<newline>\<newline>  - Fruit applepear\<newline>  - Bread\<newline>\<newline>  - apple\<newline>  - pear\<newline>''"
  have md: "extract_markdown example_web page_nested ''http://example.com'' = Inr ?md"
    by code_simp
  have outer: "outer_elem \<in> set (find_all (find_content_container ([], decompose unwanted page_nested))
                                  (named [''ul'', ''ol'']))"
    by code_simp
  have li: "li_elem \<in> set (find_all_children outer_elem (named [''li'']))"
    by code_simp
  have inner: "inner_elem \<in> set (find_all li_elem (named [''ul'', ''ol'']))"
    by code_simp
  have vis: "\<not> has_parent inner_elem ''pre'' \<and> \<not> has_parent inner_elem ''code''"
    by code_simp
  have item: "item_elem \<in> set (find_all_children inner_elem (named [''li'']))"
    by code_simp
  have t: "clean_text (get_text (snd item_elem)) = ''apple''"
    by code_simp
  have blocks: "list_block outer_elem = ''\<newline>  - Fruit applepear\<newline>  - Bread\<newline>'' \<and>
                list_block inner_elem = ''\<newline>  - apple\<newline>  - pear\<newline>''"
    by code_simp
  have "\<exists>a b c. ?md = a @ ''apple'' @ b @ ''apple'' @ c"
    using nested_list_emitted_twice[OF md outer li inner vis item] unfolding t by blast
  with md blocks show ?thesis by blast
qed

section \<open>Normalisation of URLs\<close>

text \<open>
  C3. \<open>normalize_url\<close> strips the slashes at the end of the whole string, after the
  query has been appended. A URL with a query therefore keeps the slash that ends its
  path, so that two URLs that differ only in that slash stay different, and a query
  that ends in a slash loses it.
\<close>

theorem normalize_url_slash_before_query:
  "normalize_url E example_site ''http://example.com/docs/?page=2'' =
     Inr ''http://example.com/docs/?page=2'' \<and>
   normalize_url E example_site ''http://example.com/docs?page=2'' =
     Inr ''http://example.com/docs?page=2'' \<and>
   normalize_url E example_site ''http://example.com/search?q=a/'' =
     Inr ''http://example.com/search?q=a''"
  by code_simp

text \<open>
  C4. Normalising twice is not normalising once: the first pass strips the slash of
  the query \<open>/\<close> and leaves a bare question mark, which the second pass drops.
\<close>

theorem normalize_url_twice:
  "normalize_url E example_site ''http://example.com/index.php?/'' =
     Inr ''http://example.com/index.php?'' \<and>
   normalize_url E example_site ''http://example.com/index.php?'' =
     Inr ''http://example.com/index.php''"
  by code_simp

end
